theory Spec2Isabelle
  imports Main
begin

section \<open>Strings and character classes\<close>

text \<open>
  JavaScript strings are sequences of code units; the model takes \<open>string\<close> (a list of
  \<open>char\<close>), one \<open>char\<close> per code unit, which covers the code units 0 to 255.
\<close>

definition is_lower :: "char \<Rightarrow> bool" where
  "is_lower c \<longleftrightarrow> c \<in> set ''abcdefghijklmnopqrstuvwxyz''"

definition is_upper :: "char \<Rightarrow> bool" where
  "is_upper c \<longleftrightarrow> c \<in> set ''ABCDEFGHIJKLMNOPQRSTUVWXYZ''"

definition is_digit :: "char \<Rightarrow> bool" where
  "is_digit c \<longleftrightarrow> c \<in> set ''0123456789''"

text \<open>
  White space and line terminators, the class \<^verbatim>\<open>\s\<close> of a regular expression and what
  \<^verbatim>\<open>trim\<close> strips: tab, line feed, vertical tab, form feed, carriage return, space and
  no-break space.
\<close>

definition is_space :: "char \<Rightarrow> bool" where
  "is_space c \<longleftrightarrow>
     c \<in> set [CHR 0x09, CHR 0x0A, CHR 0x0B, CHR 0x0C, CHR 0x0D, CHR '' '', CHR 0xA0]"

text \<open>The word characters of \<^verbatim>\<open>\b\<close>: letters, digits and the underscore.\<close>

definition is_word :: "char \<Rightarrow> bool" where
  "is_word c \<longleftrightarrow> is_lower c \<or> is_upper c \<or> is_digit c \<or> c = CHR ''_''"

text \<open>
  Case folding of a regular expression with the flag \<^verbatim>\<open>i\<close>: on the code units of the model
  it maps the letters a to z to A to Z and leaves every other code unit as it is (a code
  unit from 128 on is never folded onto one below 128).
\<close>

definition toUpperCase :: "char \<Rightarrow> char" where
  "toUpperCase c =
     (case map_of (zip ''abcdefghijklmnopqrstuvwxyz'' ''ABCDEFGHIJKLMNOPQRSTUVWXYZ'') c of
        Some u \<Rightarrow> u
      | None \<Rightarrow> c)"

definition trim :: "string \<Rightarrow> string" where
  "trim s = rev (dropWhile is_space (rev (dropWhile is_space s)))"

text \<open>\<^verbatim>\<open>s.split(/\s+/)[0]\<close>: the code units of \<open>s\<close> before its first white space.\<close>

definition first_token :: "string \<Rightarrow> string" where
  "first_token s = takeWhile (\<lambda>c. \<not> is_space c) s"

fun join :: "string \<Rightarrow> string list \<Rightarrow> string" where
  "join sep [] = []"
| "join sep [x] = x"
| "join sep (x # y # ys) = x @ sep @ join sep (y # ys)"

text \<open>Decimal digits of a natural number and of an integer, as a number prints.\<close>

fun digits :: "nat \<Rightarrow> string" where
  "digits n = (if n < 10 then [''0123456789'' ! n]
               else digits (n div 10) @ [''0123456789'' ! (n mod 10)])"

definition show_int :: "int \<Rightarrow> string" where
  "show_int i = (if i < 0 then ''-'' @ digits (nat (- i)) else digits (nat i))"

section \<open>Session store: the storage path of a session key\<close>

text \<open>
  \<^verbatim>\<open>_sessionPath(sessionKey) {
    const safe = sessionKey.replace(/[^a-zA-Z0-9_-]/g, '_');
    return path.join(this.sessionsDir, `${safe}.jsonl`);
  }\<close>
  The character class of the regular expression is \<open>safe_char\<close>; the global replace
  rewrites every code unit outside it, one by one. The file name holds no separator and no
  dot segment, so \<open>path.join\<close> puts it after the directory and one separator; the
  directory \<open>sessionsDir\<close> is a parameter.
\<close>

definition safe_char :: "char \<Rightarrow> bool" where
  "safe_char c \<longleftrightarrow> is_lower c \<or> is_upper c \<or> is_digit c \<or> c = CHR ''_'' \<or> c = CHR ''-''"

definition safe :: "string \<Rightarrow> string" where
  "safe sessionKey = map (\<lambda>c. if safe_char c then c else CHR ''_'') sessionKey"

definition sessionPath :: "string \<Rightarrow> string \<Rightarrow> string" where
  "sessionPath sessionsDir sessionKey = sessionsDir @ ''/'' @ safe sessionKey @ ''.jsonl''"

text \<open>The session key of an inbound event: \<^verbatim>\<open>`${channel}:${chatId}`\<close>.\<close>

definition sessionKey_of :: "string \<Rightarrow> string \<Rightarrow> string" where
  "sessionKey_of channel chatId = channel @ '':'' @ chatId"

text \<open>
  A code unit is masked when the replacement sends it to the placeholder: it is outside the
  allow-list, or it is the placeholder itself.
\<close>

definition masked :: "char \<Rightarrow> bool" where
  "masked c \<longleftrightarrow> (if safe_char c then c else CHR ''_'') = CHR ''_''"

section \<open>Policy engine: regular expressions\<close>

text \<open>
  The danger patterns are regular expressions with literals, character classes, \<^verbatim>\<open>\s\<close>,
  the dot, word boundaries, sequence, alternation, the optional, and star or plus over one
  character matcher. \<open>rx\<close> has exactly these forms (\<^verbatim>\<open>a+\<close> is \<^verbatim>\<open>aa*\<close> and
  \<^verbatim>\<open>a{3,4}\<close> is \<^verbatim>\<open>aaaa?\<close>). A position is the code unit before it, if any, and the rest
  of the string after it. \<open>ends r p\<close> lists the positions where a match of \<open>r\<close> that
  starts at \<open>p\<close> can end; \<^verbatim>\<open>pattern.test(s)\<close> holds when a match starts at some position
  of \<open>s\<close>, which is what the backtracking search decides.
\<close>

datatype atom = Lit char | LitI char | OneOf string | Space | Dot

datatype rx = Eps | Atom atom | WordB | Seq rx rx | Alt rx rx | Opt rx | Star atom

fun atom_ok :: "atom \<Rightarrow> char \<Rightarrow> bool" where
  "atom_ok (Lit a) c \<longleftrightarrow> c = a"
| "atom_ok (LitI a) c \<longleftrightarrow> toUpperCase c = toUpperCase a"
| "atom_ok (OneOf cs) c \<longleftrightarrow> c \<in> set cs"
| "atom_ok Space c \<longleftrightarrow> is_space c"
| "atom_ok Dot c \<longleftrightarrow> c \<noteq> CHR 0x0A \<and> c \<noteq> CHR 0x0D"

type_synonym pos = "char option \<times> string"

definition at_boundary :: "pos \<Rightarrow> bool" where
  "at_boundary p =
     (let w1 = (case fst p of None \<Rightarrow> False | Some c \<Rightarrow> is_word c);
          w2 = (case snd p of [] \<Rightarrow> False | c # _ \<Rightarrow> is_word c)
      in w1 \<noteq> w2)"

fun many :: "atom \<Rightarrow> char option \<Rightarrow> string \<Rightarrow> pos list" where
  "many a p [] = [(p, [])]"
| "many a p (c # cs) = (p, c # cs) # (if atom_ok a c then many a (Some c) cs else [])"

fun ends :: "rx \<Rightarrow> pos \<Rightarrow> pos list" where
  "ends Eps p = [p]"
| "ends (Atom a) p =
     (case snd p of [] \<Rightarrow> [] | c # cs \<Rightarrow> if atom_ok a c then [(Some c, cs)] else [])"
| "ends WordB p = (if at_boundary p then [p] else [])"
| "ends (Seq r1 r2) p = concat (map (ends r2) (ends r1 p))"
| "ends (Alt r1 r2) p = ends r1 p @ ends r2 p"
| "ends (Opt r) p = ends r p @ [p]"
| "ends (Star a) p = many a (fst p) (snd p)"

fun starts :: "char option \<Rightarrow> string \<Rightarrow> pos list" where
  "starts p [] = [(p, [])]"
| "starts p (c # cs) = (p, c # cs) # starts (Some c) cs"

definition test :: "rx \<Rightarrow> string \<Rightarrow> bool" where
  "test r s = list_ex (\<lambda>p. ends r p \<noteq> []) (starts None s)"

fun seqs :: "rx list \<Rightarrow> rx" where
  "seqs [] = Eps"
| "seqs [r] = r"
| "seqs (r # rs) = Seq r (seqs rs)"

definition lits :: "string \<Rightarrow> rx" where
  "lits s = seqs (map (\<lambda>c. Atom (Lit c)) s)"

definition litsI :: "string \<Rightarrow> rx" where
  "litsI s = seqs (map (\<lambda>c. Atom (LitI c)) s)"

definition Plus :: "atom \<Rightarrow> rx" where
  "Plus a = Seq (Atom a) (Star a)"

definition shells :: rx where
  "shells = Alt (lits ''bash'') (Alt (lits ''sh'') (lits ''zsh''))"

definition octal :: rx where
  "octal = Atom (OneOf ''01234567'')"

text \<open>
  \<^verbatim>\<open>const DANGEROUS_PATTERNS = [
    /\brm\s+-rf?\b/, /\bsudo\b/, /\bchmod\s+[0-7]{3,4}\b/,
    /\bcurl\b.*\|\s*(bash|sh|zsh)\b/, /\bwget\b.*\|\s*(bash|sh|zsh)\b/,
    /\bdd\s+if=/, /\bmkfs\b/, /\bformat\b/, />\s*\/dev\//,
    /\bshutdown\b/, /\breboot\b/, /\bkillall\b/, /\bpkill\b/,
    /DROP\s+TABLE/i, /DROP\s+DATABASE/i ];\<close>
\<close>

definition DANGEROUS_PATTERNS :: "rx list" where
  "DANGEROUS_PATTERNS =
    [seqs [WordB, lits ''rm'', Plus Space, lits ''-r'', Opt (Atom (Lit CHR ''f'')), WordB],
     seqs [WordB, lits ''sudo'', WordB],
     seqs [WordB, lits ''chmod'', Plus Space, octal, octal, octal, Opt octal, WordB],
     seqs [WordB, lits ''curl'', WordB, Star Dot, Atom (Lit CHR ''|''), Star Space, shells, WordB],
     seqs [WordB, lits ''wget'', WordB, Star Dot, Atom (Lit CHR ''|''), Star Space, shells, WordB],
     seqs [WordB, lits ''dd'', Plus Space, lits ''if=''],
     seqs [WordB, lits ''mkfs'', WordB],
     seqs [WordB, lits ''format'', WordB],
     seqs [Atom (Lit CHR ''>''), Star Space, lits ''/dev/''],
     seqs [WordB, lits ''shutdown'', WordB],
     seqs [WordB, lits ''reboot'', WordB],
     seqs [WordB, lits ''killall'', WordB],
     seqs [WordB, lits ''pkill'', WordB],
     seqs [litsI ''DROP'', Plus Space, litsI ''TABLE''],
     seqs [litsI ''DROP'', Plus Space, litsI ''DATABASE'']]"

section \<open>Policy engine: tool inputs\<close>

text \<open>
  The input of a tool call is a JSON object. \<open>JObj\<close> lists the properties of an object in
  the order \<^verbatim>\<open>JSON.stringify\<close> enumerates them, each name once; a property that is
  \<^verbatim>\<open>undefined\<close> is absent from the list. Numbers are the integers.
\<close>

datatype json = JNull | JBool bool | JNum int | JStr string | JArr "json list"
  | JObj "(string \<times> json) list"

type_synonym input = "(string \<times> json) list"

definition property :: "input \<Rightarrow> string \<Rightarrow> json option" where
  "property inp name = map_of inp name"

fun truthy :: "json option \<Rightarrow> bool" where
  "truthy None \<longleftrightarrow> False"
| "truthy (Some JNull) \<longleftrightarrow> False"
| "truthy (Some (JBool b)) \<longleftrightarrow> b"
| "truthy (Some (JNum n)) \<longleftrightarrow> n \<noteq> 0"
| "truthy (Some (JStr s)) \<longleftrightarrow> s \<noteq> []"
| "truthy (Some (JArr xs)) \<longleftrightarrow> True"
| "truthy (Some (JObj kvs)) \<longleftrightarrow> True"

definition hex2 :: "nat \<Rightarrow> string" where
  "hex2 n = [''0123456789abcdef'' ! (n div 16 mod 16), ''0123456789abcdef'' ! (n mod 16)]"

text \<open>The escapes of a JSON string: quote, backslash and the control characters.\<close>

definition escape_char :: "char \<Rightarrow> string" where
  "escape_char c =
     (if c = CHR 0x22 then [CHR 0x5C, CHR 0x22]
      else if c = CHR 0x5C then [CHR 0x5C, CHR 0x5C]
      else if c = CHR 0x08 then [CHR 0x5C, CHR ''b'']
      else if c = CHR 0x0C then [CHR 0x5C, CHR ''f'']
      else if c = CHR 0x0A then [CHR 0x5C, CHR ''n'']
      else if c = CHR 0x0D then [CHR 0x5C, CHR ''r'']
      else if c = CHR 0x09 then [CHR 0x5C, CHR ''t'']
      else if (of_char c :: nat) < 32 then [CHR 0x5C, CHR ''u'', CHR ''0'', CHR ''0''] @ hex2 (of_char c)
      else [c])"

definition quote :: "string \<Rightarrow> string" where
  "quote s = [CHR 0x22] @ concat (map escape_char s) @ [CHR 0x22]"

fun stringify :: "json \<Rightarrow> string"
  and stringify_props :: "(string \<times> json) list \<Rightarrow> string list"
  and stringify_items :: "json list \<Rightarrow> string list" where
  "stringify JNull = ''null''"
| "stringify (JBool b) = (if b then ''true'' else ''false'')"
| "stringify (JNum n) = show_int n"
| "stringify (JStr s) = quote s"
| "stringify (JArr xs) = ''['' @ join '','' (stringify_items xs) @ '']''"
| "stringify (JObj kvs) = ''{'' @ join '','' (stringify_props kvs) @ ''}''"
| "stringify_props [] = []"
| "stringify_props (kv # kvs) = (quote (fst kv) @ '':'' @ stringify (snd kv)) # stringify_props kvs"
| "stringify_items [] = []"
| "stringify_items (x # xs) = stringify x # stringify_items xs"

text \<open>
  The string a template literal makes of a value (\<^verbatim>\<open>`${v}`\<close>): an absent value prints
  \<^verbatim>\<open>undefined\<close>, an array joins its elements with commas (\<^verbatim>\<open>null\<close> as the empty string), an
  object prints \<^verbatim>\<open>[object Object]\<close>.
\<close>

fun toString :: "json \<Rightarrow> string"
  and toString_items :: "json list \<Rightarrow> string list" where
  "toString JNull = ''null''"
| "toString (JBool b) = (if b then ''true'' else ''false'')"
| "toString (JNum n) = show_int n"
| "toString (JStr s) = s"
| "toString (JArr xs) = join '','' (toString_items xs)"
| "toString (JObj kvs) = ''[object Object]''"
| "toString_items [] = []"
| "toString_items (x # xs) = (if x = JNull then [] else toString x) # toString_items xs"

definition template :: "json option \<Rightarrow> string" where
  "template v = (case v of None \<Rightarrow> ''undefined'' | Some x \<Rightarrow> toString x)"

section \<open>Policy engine: the permission system\<close>

definition SAFE_COMMANDS :: "string list" where
  "SAFE_COMMANDS =
    [''ls'', ''cat'', ''head'', ''tail'', ''wc'', ''date'', ''whoami'', ''echo'', ''pwd'',
     ''which'', ''file'', ''stat'', ''du'', ''df'', ''uname'', ''env'', ''hostname'',
     ''uptime'', ''id'', ''groups'', ''printenv'', ''locale'', ''find'', ''grep'', ''awk'',
     ''sed'', ''sort'', ''uniq'', ''tr'', ''cut'', ''diff'', ''md5sum'', ''sha256sum'',
     ''base64'', ''wc'', ''git status'', ''git log'', ''git diff'', ''git branch'',
     ''git remote'', ''node --version'', ''npm --version'', ''python --version'',
     ''python3 --version'']"

definition SAFE_TOOLS :: "string list" where
  "SAFE_TOOLS =
    [''read_file'', ''list_directory'', ''search_files'', ''system_info'', ''list_processes'',
     ''clipboard_read'', ''memory_search'', ''memory_list'', ''list_scheduled'',
     ''web_search'', ''web_fetch'', ''calendar_list_events'', ''calendar_get_event'',
     ''calendar_find_free_time'', ''calendar_list_calendars'', ''drive_list_files'',
     ''drive_get_file'', ''drive_read_file'', ''sheets_read'', ''sheets_get_info'',
     ''github_list_repos'', ''github_get_repo'', ''github_list_issues'', ''github_get_issue'',
     ''github_list_prs'', ''github_get_pr'', ''github_get_file'', ''github_list_files'',
     ''github_search_code'', ''github_list_workflows'', ''github_notifications'', ''sms_list'',
     ''call_list'', ''phone_lookup'', ''notion_search'', ''notion_get_page'',
     ''notion_query_database'', ''notion_get_database'', ''docker_list_containers'',
     ''docker_logs'', ''docker_inspect'', ''docker_stats'', ''docker_list_images'',
     ''docker_compose_ps'', ''docker_list_networks'', ''docker_list_volumes'', ''db_query'',
     ''db_list_tables'', ''db_describe_table'', ''db_list_databases'', ''db_table_stats'']"

definition MODERATE_TOOLS :: "string list" where
  "MODERATE_TOOLS =
    [''write_file'', ''append_file'', ''edit_file'', ''copy_file'', ''move_file'',
     ''web_download'', ''clipboard_write'', ''notify'', ''open'', ''screenshot'',
     ''memory_save'', ''memory_delete'', ''schedule_task'', ''cancel_scheduled'',
     ''calendar_create_event'', ''calendar_update_event'', ''drive_upload_file'',
     ''drive_create_file'', ''drive_create_folder'', ''drive_share_file'', ''drive_move_file'',
     ''sheets_write'', ''sheets_append'', ''sheets_create'', ''sheets_add_sheet'',
     ''sheets_clear'', ''github_create_repo'', ''github_create_issue'',
     ''github_update_issue'', ''github_comment_issue'', ''github_create_pr'',
     ''github_trigger_workflow'', ''sms_send'', ''call_make'', ''notion_create_page'',
     ''notion_update_page'', ''notion_append_blocks'', ''notion_create_database'',
     ''docker_run'', ''docker_start'', ''docker_restart'', ''docker_exec'', ''docker_pull'',
     ''docker_build'', ''docker_compose_up'', ''db_insert'', ''db_update'',
     ''db_create_table'', ''db_export'', ''db_import'']"

definition DANGEROUS_TOOLS :: "string list" where
  "DANGEROUS_TOOLS =
    [''bash'', ''delete_file'', ''kill_process'', ''calendar_delete_event'',
     ''drive_delete_file'', ''github_merge_pr'', ''docker_stop'', ''docker_remove'',
     ''docker_compose_down'', ''docker_system_prune'', ''db_execute'', ''db_delete'']"

definition commonCommands :: "string list" where
  "commonCommands =
    [''mkdir'', ''touch'', ''cp'', ''mv'', ''ln'', ''tar'', ''zip'', ''unzip'', ''gzip'',
     ''curl'', ''wget'', ''ssh'', ''scp'', ''rsync'', ''git'', ''npm'', ''npx'', ''yarn'',
     ''pnpm'', ''pip'', ''pip3'', ''python'', ''python3'', ''node'', ''docker'', ''brew'',
     ''apt'', ''apt-get'', ''code'', ''open'', ''xdg-open'', ''make'', ''cmake'', ''cargo'',
     ''go'', ''java'', ''javac'', ''ruby'', ''php'']"

text \<open>The three results of a check: \<^verbatim>\<open>'allowed' | 'denied' | 'needs_approval'\<close>.\<close>

datatype verdict = Allowed | Denied | NeedsApproval

datatype error = TypeError | IOError

text \<open>\<^verbatim>\<open>this.approvals\<close>, the persisted decision records: \<^verbatim>\<open>{ allowed: [], denied: [] }\<close>.\<close>

record approvals =
  allowed :: "string list"
  denied :: "string list"

definition no_approvals :: approvals where
  "no_approvals = \<lparr>allowed = [], denied = []\<rparr>"

text \<open>
  \<^verbatim>\<open>_checkApproval(toolName, input) {
    const key = `${toolName}:${JSON.stringify(input)}`;
    if (this.approvals.allowed.includes(key)) return 'allowed';
    if (this.approvals.denied.includes(key)) return 'denied';
    return 'needs_approval';
  }\<close>
\<close>

definition approval_key :: "string \<Rightarrow> input \<Rightarrow> string" where
  "approval_key toolName inp = toolName @ '':'' @ stringify (JObj inp)"

definition checkApproval :: "approvals \<Rightarrow> string \<Rightarrow> input \<Rightarrow> verdict" where
  "checkApproval ap toolName inp =
     (let key = approval_key toolName inp in
      if key \<in> set (allowed ap) then Allowed
      else if key \<in> set (denied ap) then Denied
      else NeedsApproval)"

text \<open>
  The loop of \<^verbatim>\<open>_checkBash\<close> over the danger patterns: at the first pattern that matches
  the trimmed command it returns from the decision records under the key
  \<^verbatim>\<open>`bash:${trimmed}`\<close>; \<open>None\<close> when no pattern matches and the function goes on.
\<close>

fun danger_scan :: "approvals \<Rightarrow> string \<Rightarrow> rx list \<Rightarrow> verdict option" where
  "danger_scan ap trimmed [] = None"
| "danger_scan ap trimmed (pattern # rest) =
     (if test pattern trimmed then
        (let key = ''bash:'' @ trimmed in
         if key \<in> set (allowed ap) then Some Allowed
         else if key \<in> set (denied ap) then Some Denied
         else Some NeedsApproval)
      else danger_scan ap trimmed rest)"

text \<open>\<^verbatim>\<open>_checkBash\<close> on a command that is a non-empty string.\<close>

definition checkBash_string :: "approvals \<Rightarrow> string \<Rightarrow> verdict" where
  "checkBash_string ap command =
     (let trimmed = trim command;
          baseCmd = first_token trimmed
      in if baseCmd \<in> set SAFE_COMMANDS \<or> trimmed \<in> set SAFE_COMMANDS then Allowed
         else case danger_scan ap trimmed DANGEROUS_PATTERNS of
           Some v \<Rightarrow> v
         | None \<Rightarrow>
            (let baseKey = ''bash_cmd:'' @ baseCmd;
                 exactKey = ''bash:'' @ trimmed
             in if baseKey \<in> set (allowed ap) then Allowed
                else if exactKey \<in> set (allowed ap) then Allowed
                else if exactKey \<in> set (denied ap) then Denied
                else if baseCmd \<in> set commonCommands then Allowed
                else NeedsApproval))"

text \<open>
  \<^verbatim>\<open>_checkBash(command)\<close> on the value of \<^verbatim>\<open>input.command\<close>: a value that is not truthy
  (absent, \<^verbatim>\<open>null\<close>, \<^verbatim>\<open>false\<close>, \<^verbatim>\<open>0\<close>, the empty string) is denied at
  \<^verbatim>\<open>if (!command) return 'denied'\<close>; a truthy value that is not a string has no
  \<^verbatim>\<open>trim\<close> method, and the call throws.
\<close>

fun checkBash :: "approvals \<Rightarrow> json option \<Rightarrow> error + verdict" where
  "checkBash ap (Some (JStr command)) =
     (if command = [] then Inr Denied else Inr (checkBash_string ap command))"
| "checkBash ap command = (if truthy command then Inl TypeError else Inr Denied)"

text \<open>
  \<^verbatim>\<open>check(toolName, input) {
    if (SAFE_TOOLS.has(toolName)) return 'allowed';
    if (MODERATE_TOOLS.has(toolName)) {
      if (toolName === 'delete_file' && input.recursive) return this._checkApproval(toolName, input);
      return 'allowed';
    }
    if (toolName === 'bash') { return this._checkBash(input.command); }
    if (toolName === 'kill_process') { return this._checkApproval(toolName, input); }
    return this._checkApproval(toolName, input);
  }\<close>
\<close>

definition check :: "approvals \<Rightarrow> string \<Rightarrow> input \<Rightarrow> error + verdict" where
  "check ap toolName inp =
     (if toolName \<in> set SAFE_TOOLS then Inr Allowed
      else if toolName \<in> set MODERATE_TOOLS then
        (if toolName = ''delete_file'' \<and> truthy (property inp ''recursive'')
         then Inr (checkApproval ap toolName inp)
         else Inr Allowed)
      else if toolName = ''bash'' then checkBash ap (property inp ''command'')
      else if toolName = ''kill_process'' then Inr (checkApproval ap toolName inp)
      else Inr (checkApproval ap toolName inp))"

text \<open>
  \<^verbatim>\<open>approve(toolName, input, allowed) {
    const key = toolName === 'bash' ? `bash:${input.command}` : `${toolName}:${JSON.stringify(input)}`;
    const list = allowed ? 'allowed' : 'denied';
    if (!this.approvals[list].includes(key)) { this.approvals[list].push(key); this._save(); }
  }\<close>
  The model returns the decision records after the call; \<^verbatim>\<open>_save\<close> writes them to the
  permissions file as they are.
\<close>

definition approve_key :: "string \<Rightarrow> input \<Rightarrow> string" where
  "approve_key toolName inp =
     (if toolName = ''bash'' then ''bash:'' @ template (property inp ''command'')
      else approval_key toolName inp)"

definition approve :: "approvals \<Rightarrow> string \<Rightarrow> input \<Rightarrow> bool \<Rightarrow> approvals" where
  "approve ap toolName inp allow =
     (let key = approve_key toolName inp in
      if allow then (if key \<in> set (allowed ap) then ap else ap\<lparr>allowed := allowed ap @ [key]\<rparr>)
      else (if key \<in> set (denied ap) then ap else ap\<lparr>denied := denied ap @ [key]\<rparr>))"

text \<open>A command matches a danger pattern when one of the patterns tests true on it.\<close>

definition dangerous :: "string \<Rightarrow> bool" where
  "dangerous s = list_ex (\<lambda>pattern. test pattern s) DANGEROUS_PATTERNS"

section \<open>Gateway: sessions, configuration and events\<close>

text \<open>
  A turn of a history is a JSON object, as it is pushed, written and parsed. A session is
  \<^verbatim>\<open>{ history, conversationId, lastActivity }\<close>; \<open>None\<close> is \<^verbatim>\<open>null\<close>.
\<close>

record session =
  history :: "json list"
  conversationId :: "json option"
  lastActivity :: int

text \<open>
  The fields of the configuration that the gateway reads: the default endpoint,
  \<^verbatim>\<open>maxHistory\<close> (\<open>None\<close> when it is not set), the endpoint override of each channel
  (\<^verbatim>\<open>config.channels?.[channel].endpoint\<close>, \<open>None\<close> without one) and the data directory.
\<close>

record config =
  endpoint :: string
  maxHistory :: "int option"
  channels :: "string \<Rightarrow> string option"
  dataDir :: string

definition sessionsDir :: "config \<Rightarrow> string" where
  "sessionsDir cfg = dataDir cfg @ ''/sessions''"

text \<open>
  The inbound event handed to \<^verbatim>\<open>handleMessage\<close>. Its \<^verbatim>\<open>metadata\<close> is only copied into
  the context of the agent call, which never reads it, and is left out.
\<close>

record event =
  channel :: string
  chatId :: string
  chatName :: "string option"
  sender :: string
  text' :: string
  timestamp :: "int option"

text \<open>The result of a unit of work that answers: \<^verbatim>\<open>{ reply, sessionKey }\<close>.\<close>

record answer =
  reply :: json
  sessionKey :: string

text \<open>\<^verbatim>\<open>v.name\<close> on a JSON value that is not \<^verbatim>\<open>null\<close>: only an object has properties.\<close>

fun js_get :: "json \<Rightarrow> string \<Rightarrow> json option" where
  "js_get (JObj kvs) name = map_of kvs name"
| "js_get v name = None"

text \<open>\<^verbatim>\<open>a || b\<close> on values that may be absent: the first one if it is truthy.\<close>

definition or_else :: "json option \<Rightarrow> json option \<Rightarrow> json option" where
  "or_else a b = (if truthy a then a else b)"

text \<open>\<^verbatim>\<open>v || null\<close>: the value if it is truthy, else \<^verbatim>\<open>null\<close>.\<close>

definition or_null :: "json option \<Rightarrow> json option" where
  "or_null a = (if truthy a then a else None)"

text \<open>
  \<^verbatim>\<open>xs.slice(-n)\<close> for an integer \<open>n\<close>: the last \<open>n\<close> elements when \<open>n\<close> is positive (all
  of them when there are fewer); for \<open>n \<le> 0\<close> the start index \<open>-n\<close> counts from the front.
\<close>

definition slice_last :: "int \<Rightarrow> 'a list \<Rightarrow> 'a list" where
  "slice_last n xs = (if 0 < n then drop (length xs - nat n) xs else drop (nat (- n)) xs)"

text \<open>\<^verbatim>\<open>const maxHistory = this.config.maxHistory || 20;\<close>\<close>

definition effective_maxHistory :: "config \<Rightarrow> int" where
  "effective_maxHistory cfg = (case maxHistory cfg of None \<Rightarrow> 20 | Some m \<Rightarrow> if m = 0 then 20 else m)"

text \<open>
  \<^verbatim>\<open>const channelConfig = this.config.channels?.[channel] || {};
  const endpoint = channelConfig.endpoint || this.config.endpoint;\<close>
\<close>

definition resolve_endpoint :: "config \<Rightarrow> string \<Rightarrow> string" where
  "resolve_endpoint cfg ch =
     (case channels cfg ch of
        None \<Rightarrow> endpoint cfg
      | Some e \<Rightarrow> if e \<noteq> [] then e else endpoint cfg)"

text \<open>
  The user turn: \<^verbatim>\<open>{ role: 'user', content: text, sender, timestamp: timestamp || Date.now(), channel }\<close>,
  and the assistant turn: \<^verbatim>\<open>{ role: 'assistant', content: agentResponse.reply, timestamp: Date.now() }\<close>.
\<close>

definition user_turn :: "event \<Rightarrow> int \<Rightarrow> json" where
  "user_turn ev now =
     JObj [(''role'', JStr ''user''), (''content'', JStr (text' ev)), (''sender'', JStr (sender ev)),
           (''timestamp'', JNum (case timestamp ev of None \<Rightarrow> now | Some t \<Rightarrow> if t = 0 then now else t)),
           (''channel'', JStr (channel ev))]"

definition assistant_turn :: "json \<Rightarrow> int \<Rightarrow> json" where
  "assistant_turn r now =
     JObj [(''role'', JStr ''assistant''), (''content'', r), (''timestamp'', JNum now)]"

section \<open>Gateway: the agent call\<close>

text \<open>
  What the HTTP request of \<^verbatim>\<open>_callAgent\<close> comes to: \<^verbatim>\<open>fetch\<close> rejects (no connection, the
  60 s timeout), or a response with its \<^verbatim>\<open>ok\<close> flag and the value \<^verbatim>\<open>response.json()\<close>
  parses, \<open>None\<close> when the body is not JSON.
\<close>

datatype fetch_outcome = FetchFailed | Response bool "json option"

record agent_response =
  agent_reply :: "json option"
  agent_conversationId :: "json option"

text \<open>
  \<^verbatim>\<open>_callAgent\<close> returns \<^verbatim>\<open>null\<close> for everything thrown inside its \<^verbatim>\<open>try\<close>: building the
  request body reads \<^verbatim>\<open>.content\<close> of the last turn and \<^verbatim>\<open>.role\<close> of the last ten, which
  throws on a missing turn and on a \<^verbatim>\<open>null\<close> one; a rejected fetch; an unparsable body; a
  body that is \<^verbatim>\<open>null\<close>. A response that is not \<^verbatim>\<open>ok\<close> returns \<^verbatim>\<open>null\<close> as well. Otherwise
  \<^verbatim>\<open>{ reply: data.reply || data.response || data.text || null,
     conversationId: data.conversationId || data.conversation_id || null }\<close>.
\<close>

definition reply_of :: "json \<Rightarrow> json option" where
  "reply_of data =
     or_null (or_else (js_get data ''reply'') (or_else (js_get data ''response'') (js_get data ''text'')))"

definition conversationId_of :: "json \<Rightarrow> json option" where
  "conversationId_of data =
     or_null (or_else (js_get data ''conversationId'') (js_get data ''conversation_id''))"

definition callAgent :: "json list \<Rightarrow> fetch_outcome \<Rightarrow> agent_response option" where
  "callAgent hist fo =
     (if hist = [] \<or> JNull \<in> set (slice_last 10 hist) then None
      else case fo of
        FetchFailed \<Rightarrow> None
      | Response ok body \<Rightarrow>
          if \<not> ok then None
          else case body of
            None \<Rightarrow> None
          | Some data \<Rightarrow>
              if data = JNull then None
              else Some \<lparr>agent_reply = reply_of data,
                         agent_conversationId = conversationId_of data\<rparr>)"

section \<open>Gateway: state and session persistence\<close>

text \<open>
  A promise returned by \<^verbatim>\<open>handleMessage\<close> (\<^verbatim>\<open>currentLock\<close>) with the unit of work behind it:
  its session key and event, the promise it was chained on (\<^verbatim>\<open>prevLock\<close>, \<open>None\<close> for
  \<^verbatim>\<open>Promise.resolve()\<close>), and where it stands: its callback has not run yet; the unit of work
  is suspended at \<^verbatim>\<open>await this._callAgent(...)\<close> holding its session object and endpoint; or
  the promise has settled.
\<close>

datatype 'a settled = Fulfilled 'a | Rejected error

datatype pstate = Queued | InFlight session string | Settled "answer option settled"

record task =
  t_key :: string
  t_event :: event
  t_prev :: "nat option"
  t_state :: pstate

text \<open>
  The state of the gateway: the session cache \<^verbatim>\<open>this.sessions\<close>, the chain tails
  \<^verbatim>\<open>this.locks\<close> (a promise is the index of its task in \<open>promises\<close>), the session files
  (a file is the list of its non-empty lines, each as \<^verbatim>\<open>JSON.parse\<close> reads it, \<open>None\<close> for a
  line it rejects; a turn that \<^verbatim>\<open>JSON.stringify\<close> wrote parses back to itself), and the log
  of the promises that have settled, in the order they settled: what the adapters awaiting
  \<^verbatim>\<open>handleMessage\<close> receive, one after the other.
\<close>

record gateway =
  sessions :: "string \<rightharpoonup> session"
  locks :: "string \<rightharpoonup> nat"
  files :: "string \<rightharpoonup> json option list"
  promises :: "task list"
  delivered :: "(nat \<times> answer option settled) list"

definition init :: "(string \<rightharpoonup> json option list) \<Rightarrow> gateway" where
  "init fs = \<lparr>sessions = Map.empty, locks = Map.empty, files = fs, promises = [], delivered = []\<rparr>"

text \<open>
  \<^verbatim>\<open>[...session.history].reverse().find(h => h.role === 'assistant')\<close>: the scan from the
  last turn backwards; reading \<^verbatim>\<open>.role\<close> of a \<^verbatim>\<open>null\<close> turn throws.
\<close>

fun find_assistant :: "json list \<Rightarrow> error + json option" where
  "find_assistant [] = Inr None"
| "find_assistant (h # hs) =
     (if h = JNull then Inl TypeError
      else if js_get h ''role'' = Some (JStr ''assistant'') then Inr (Some h)
      else find_assistant hs)"

text \<open>
  The \<^verbatim>\<open>try\<close> block of \<^verbatim>\<open>_loadSession\<close> on the lines of the file: the history and the
  conversation id it recovers, or the error that sends it to the \<^verbatim>\<open>catch\<close>.
\<close>

definition read_session :: "json option list \<Rightarrow> error + json list \<times> json option" where
  "read_session lines =
     (if None \<in> set lines then Inl TypeError
      else let hist = map the lines in
        case find_assistant (rev hist) of
          Inl e \<Rightarrow> Inl e
        | Inr None \<Rightarrow> Inr (hist, None)
        | Inr (Some lastAssistant) \<Rightarrow>
            Inr (hist, if truthy (js_get lastAssistant ''conversationId'')
                       then js_get lastAssistant ''conversationId'' else None))"

text \<open>
  \<^verbatim>\<open>_loadSession(sessionKey)\<close>: the cached session if there is one; else the session read from
  the file, or an empty one when there is no file or reading it throws; the session is put
  in the cache. \<open>now\<close> is what \<^verbatim>\<open>Date.now()\<close> returns.
\<close>

definition loadSession :: "config \<Rightarrow> int \<Rightarrow> string \<Rightarrow> gateway \<Rightarrow> session \<times> gateway" where
  "loadSession cfg now key g =
     (case sessions g key of
        Some s \<Rightarrow> (s, g)
      | None \<Rightarrow>
          (let filePath = sessionPath (sessionsDir cfg) key;
               empty = \<lparr>history = [], conversationId = None, lastActivity = now\<rparr>;
               s = (case files g filePath of
                      None \<Rightarrow> empty
                    | Some lines \<Rightarrow>
                        (case read_session lines of
                           Inl e \<Rightarrow> empty
                         | Inr (hist, cid) \<Rightarrow> \<lparr>history = hist, conversationId = cid, lastActivity = now\<rparr>))
           in (s, g\<lparr>sessions := (sessions g)(key \<mapsto> s)\<rparr>)))"

text \<open>
  \<^verbatim>\<open>_saveSession(sessionKey, session)\<close>: the session goes into the cache, then the whole
  history is written, one line a turn. \<open>written\<close> tells whether \<^verbatim>\<open>fs.writeFileSync\<close>
  succeeds; when it throws the cache is already updated.
\<close>

definition saveSession :: "config \<Rightarrow> bool \<Rightarrow> string \<Rightarrow> session \<Rightarrow> gateway \<Rightarrow> gateway \<times> (error + unit)" where
  "saveSession cfg written key s g =
     (let g1 = g\<lparr>sessions := (sessions g)(key \<mapsto> s)\<rparr>;
          filePath = sessionPath (sessionsDir cfg) key
      in if written then (g1\<lparr>files := (files g1)(filePath \<mapsto> map Some (history s))\<rparr>, Inr ())
         else (g1, Inl IOError))"

text \<open>\<^verbatim>\<open>cleanExpiredSessions(maxAge)\<close>: the cache loses the sessions idle for longer.\<close>

definition cleanExpiredSessions :: "int \<Rightarrow> int \<Rightarrow> gateway \<Rightarrow> gateway" where
  "cleanExpiredSessions now maxAge g =
     g\<lparr>sessions := (\<lambda>key. case sessions g key of
                        None \<Rightarrow> None
                      | Some s \<Rightarrow> if now - lastActivity s > maxAge then None else Some s)\<rparr>"

section \<open>Gateway: the unit of work\<close>

text \<open>
  \<^verbatim>\<open>_processMessage\<close> is an async function with one suspension point, the agent call. Its
  first part runs from the entry to \<^verbatim>\<open>await this._callAgent(endpoint, context)\<close>: it loads
  the session, pushes the user turn, cuts the history to the last \<^verbatim>\<open>maxHistory\<close> turns and
  resolves the endpoint. The session object is the one in the cache, so the cache sees the
  push and the cut. It returns \<^verbatim>\<open>null\<close> at once without an endpoint (\<open>None\<close>), else it
  suspends holding the session and the endpoint.
\<close>

definition processMessage_begin ::
    "config \<Rightarrow> int \<Rightarrow> event \<Rightarrow> string \<Rightarrow> gateway \<Rightarrow> gateway \<times> (session \<times> string) option" where
  "processMessage_begin cfg now ev key g =
     (let (s0, g1) = loadSession cfg now key g;
          s1 = s0\<lparr>history := history s0 @ [user_turn ev now]\<rparr>;
          maxH = effective_maxHistory cfg;
          s2 = (if int (length (history s1)) > maxH
                then s1\<lparr>history := slice_last maxH (history s1)\<rparr>
                else s1);
          g2 = g1\<lparr>sessions := (sessions g1)(key \<mapsto> s2)\<rparr>;
          ep = resolve_endpoint cfg (channel ev)
      in if ep = [] then (g2, None) else (g2, Some (s2, ep)))"

text \<open>
  Its second part runs when the agent call has returned: without a reply it returns \<^verbatim>\<open>null\<close>
  and touches nothing; with one it stores the conversation id, pushes the assistant turn,
  sets \<^verbatim>\<open>lastActivity\<close>, saves the session and returns the answer. An error thrown by the
  save leaves the function (\<open>Inl\<close>).
\<close>

definition processMessage_finish ::
    "config \<Rightarrow> int \<Rightarrow> bool \<Rightarrow> string \<Rightarrow> session \<Rightarrow> fetch_outcome \<Rightarrow> gateway
      \<Rightarrow> gateway \<times> (error + answer option)" where
  "processMessage_finish cfg now written key s fo g =
     (case callAgent (history s) fo of
        None \<Rightarrow> (g, Inr None)
      | Some agentResponse \<Rightarrow>
          (case agent_reply agentResponse of
             None \<Rightarrow> (g, Inr None)
           | Some r \<Rightarrow>
              (let s1 = (case agent_conversationId agentResponse of
                           None \<Rightarrow> s
                         | Some c \<Rightarrow> s\<lparr>conversationId := Some c\<rparr>);
                   s2 = s1\<lparr>history := history s1 @ [assistant_turn r now]\<rparr>;
                   s3 = s2\<lparr>lastActivity := now\<rparr>
               in case saveSession cfg written key s3 g of
                    (g', Inl e) \<Rightarrow> (g', Inl e)
                  | (g', Inr u) \<Rightarrow> (g', Inr (Some \<lparr>reply = r, sessionKey = key\<rparr>)))))"

section \<open>Gateway: the promise chain of a session key\<close>

text \<open>
  \<^verbatim>\<open>async handleMessage({ channel, chatId, ... }) {
    const sessionKey = `${channel}:${chatId}`;
    const prevLock = this.locks.get(sessionKey) || Promise.resolve();
    const currentLock = prevLock.then(() => this._processMessage({ ... }))
      .catch(err => { console.error(...); return null; });
    this.locks.set(sessionKey, currentLock);
    return currentLock;
  }\<close>
  The call allocates the promise \<^verbatim>\<open>currentLock\<close>, chained on the tail of its key, and makes
  it the new tail; the callback of \<^verbatim>\<open>then\<close> runs later.
\<close>

definition handleMessage :: "event \<Rightarrow> gateway \<Rightarrow> gateway" where
  "handleMessage ev g =
     (let key = sessionKey_of (channel ev) (chatId ev);
          prevLock = locks g key;
          currentLock = length (promises g)
      in g\<lparr>promises := promises g @ [\<lparr>t_key = key, t_event = ev, t_prev = prevLock, t_state = Queued\<rparr>],
           locks := (locks g)(key \<mapsto> currentLock)\<rparr>)"

text \<open>
  \<^verbatim>\<open>.catch(err => { ...; return null; })\<close>: a fulfilled promise passes through, a rejected one
  becomes a promise fulfilled with \<^verbatim>\<open>null\<close>.
\<close>

fun catch_null :: "answer option settled \<Rightarrow> answer option settled" where
  "catch_null (Fulfilled v) = Fulfilled v"
| "catch_null (Rejected e) = Fulfilled None"

text \<open>What an async function that returned or threw settles its promise with.\<close>

fun settled_of :: "error + answer option \<Rightarrow> answer option settled" where
  "settled_of (Inl e) = Rejected e"
| "settled_of (Inr v) = Fulfilled v"

text \<open>The outcome of \<^verbatim>\<open>prevLock\<close>, once it has settled; \<^verbatim>\<open>Promise.resolve()\<close> is fulfilled.\<close>

definition prev_outcome :: "gateway \<Rightarrow> nat option \<Rightarrow> answer option settled option" where
  "prev_outcome g p =
     (case p of
        None \<Rightarrow> Some (Fulfilled None)
      | Some j \<Rightarrow>
          if j < length (promises g)
          then (case t_state (promises g ! j) of Settled out \<Rightarrow> Some out | _ \<Rightarrow> None)
          else None)"

definition set_state :: "nat \<Rightarrow> pstate \<Rightarrow> gateway \<Rightarrow> gateway" where
  "set_state i st g = g\<lparr>promises := (promises g)[i := (promises g ! i)\<lparr>t_state := st\<rparr>]\<rparr>"

text \<open>The promise \<open>i\<close> settles: its outcome goes to whoever awaits it.\<close>

definition settle :: "nat \<Rightarrow> answer option settled \<Rightarrow> gateway \<Rightarrow> gateway" where
  "settle i out g = (set_state i (Settled out) g)\<lparr>delivered := delivered g @ [(i, out)]\<rparr>"

text \<open>
  The callback of \<^verbatim>\<open>then\<close> calls \<^verbatim>\<open>_processMessage\<close>: the first part of the unit of work
  runs; the promise settles at once when that part returned, else the unit is in flight.
\<close>

definition run_callback :: "config \<Rightarrow> nat \<Rightarrow> int \<Rightarrow> gateway \<Rightarrow> gateway" where
  "run_callback cfg i now g =
     (let t = promises g ! i in
      case processMessage_begin cfg now (t_event t) (t_key t) g of
        (g', None) \<Rightarrow> settle i (catch_null (settled_of (Inr None))) g'
      | (g', Some (s, ep)) \<Rightarrow> set_state i (InFlight s ep) g')"

text \<open>
  The reaction of \<^verbatim>\<open>prevLock.then(callback).catch(handler)\<close> for the promise \<open>i\<close>, once
  \<^verbatim>\<open>prevLock\<close> has settled: a fulfilled \<^verbatim>\<open>prevLock\<close> runs the callback; a rejected one would
  skip the callback and hand its error to the handler. \<open>None\<close> when the reaction is not due.
\<close>

definition runThen :: "config \<Rightarrow> nat \<Rightarrow> int \<Rightarrow> gateway \<Rightarrow> gateway option" where
  "runThen cfg i now g =
     (if i < length (promises g) \<and> t_state (promises g ! i) = Queued then
        (case prev_outcome g (t_prev (promises g ! i)) of
           None \<Rightarrow> None
         | Some (Fulfilled v) \<Rightarrow> Some (run_callback cfg i now g)
         | Some (Rejected e) \<Rightarrow> Some (settle i (catch_null (Rejected e)) g))
      else None)"

text \<open>
  The agent call of the unit in flight behind the promise \<open>i\<close> returns: the second part of
  the unit of work runs and the promise settles, through the \<^verbatim>\<open>catch\<close> handler.
\<close>

definition agentReturns :: "config \<Rightarrow> nat \<Rightarrow> fetch_outcome \<Rightarrow> int \<Rightarrow> bool \<Rightarrow> gateway \<Rightarrow> gateway option" where
  "agentReturns cfg i fo now written g =
     (if i < length (promises g) then
        (case t_state (promises g ! i) of
           InFlight s ep \<Rightarrow>
             (case processMessage_finish cfg now written (t_key (promises g ! i)) s fo g of
                (g', r) \<Rightarrow> Some (settle i (catch_null (settled_of r)) g'))
         | _ \<Rightarrow> None)
      else None)"

text \<open>
  What happens to the gateway, one event of the event loop at a time: an adapter submits an
  inbound event; the reaction of a chained promise runs; an agent call returns (with what
  the request came to, the time, and whether the session file can be written); the
  sweep timer fires.
\<close>

datatype action =
    Submit event
  | RunThen nat int
  | AgentReturns nat fetch_outcome int bool
  | Sweep int int

fun step :: "config \<Rightarrow> action \<Rightarrow> gateway \<Rightarrow> gateway option" where
  "step cfg (Submit ev) g = Some (handleMessage ev g)"
| "step cfg (RunThen i now) g = runThen cfg i now g"
| "step cfg (AgentReturns i fo now written) g = agentReturns cfg i fo now written g"
| "step cfg (Sweep now maxAge) g = Some (cleanExpiredSessions now maxAge g)"

fun run :: "config \<Rightarrow> action list \<Rightarrow> gateway \<Rightarrow> gateway option" where
  "run cfg [] g = Some g"
| "run cfg (a # as) g = (case step cfg a g of None \<Rightarrow> None | Some g' \<Rightarrow> run cfg as g')"

text \<open>Shorthands for the statements about the chain of a key.\<close>

definition is_settled :: "pstate \<Rightarrow> bool" where
  "is_settled st = (case st of Settled out \<Rightarrow> True | _ \<Rightarrow> False)"

definition key_of :: "gateway \<Rightarrow> nat \<Rightarrow> string" where
  "key_of g i = t_key (promises g ! i)"

definition state_of :: "gateway \<Rightarrow> nat \<Rightarrow> pstate" where
  "state_of g i = t_state (promises g ! i)"

text \<open>The history after the push of the user turn and the cut.\<close>

definition pushed :: "config \<Rightarrow> json \<Rightarrow> json list \<Rightarrow> json list" where
  "pushed cfg u h =
     (if int (length (h @ [u])) > effective_maxHistory cfg
      then slice_last (effective_maxHistory cfg) (h @ [u]) else h @ [u])"

section \<open>Gateway: invariants of the promise chains\<close>

text \<open>What a step does to the promises, the chain tails and the log.\<close>

inductive sched :: "gateway \<Rightarrow> gateway \<Rightarrow> bool" where
  submit: "promises g' = promises g @ [\<lparr>t_key = K, t_event = ev, t_prev = locks g K, t_state = Queued\<rparr>] \<Longrightarrow>
           locks g' = (locks g)(K \<mapsto> length (promises g)) \<Longrightarrow> delivered g' = delivered g \<Longrightarrow> sched g g'"
| start: "i < length (promises g) \<Longrightarrow> state_of g i = Queued \<Longrightarrow>
          prev_outcome g (t_prev (promises g ! i)) \<noteq> None \<Longrightarrow>
          promises g' = (promises g)[i := (promises g ! i)\<lparr>t_state := InFlight s ep\<rparr>] \<Longrightarrow>
          locks g' = locks g \<Longrightarrow> delivered g' = delivered g \<Longrightarrow> sched g g'"
| finish: "i < length (promises g) \<Longrightarrow>
          state_of g i = Queued \<and> prev_outcome g (t_prev (promises g ! i)) \<noteq> None \<or>
            (\<exists>s ep. state_of g i = InFlight s ep) \<Longrightarrow>
          promises g' = (promises g)[i := (promises g ! i)\<lparr>t_state := Settled (Fulfilled v)\<rparr>] \<Longrightarrow>
          locks g' = locks g \<Longrightarrow> delivered g' = delivered g @ [(i, Fulfilled v)] \<Longrightarrow> sched g g'"
| idle: "promises g' = promises g \<Longrightarrow> locks g' = locks g \<Longrightarrow> delivered g' = delivered g \<Longrightarrow> sched g g'"

definition prev_of :: "gateway \<Rightarrow> nat \<Rightarrow> nat option" where
  "prev_of g i = t_prev (promises g ! i)"

text \<open>
  The chains: the promise a task was chained on is the latest earlier task of its key, and
  the tail of a key is its latest task.
\<close>

definition chain_ok :: "gateway \<Rightarrow> bool" where
  "chain_ok g \<longleftrightarrow>
     (\<forall>i<length (promises g).
        case prev_of g i of
          None \<Rightarrow> (\<forall>j<i. key_of g j \<noteq> key_of g i)
        | Some p \<Rightarrow> p < i \<and> key_of g p = key_of g i \<and> (\<forall>j. p < j \<and> j < i \<longrightarrow> key_of g j \<noteq> key_of g i)) \<and>
     (\<forall>K. case locks g K of
          None \<Rightarrow> (\<forall>j<length (promises g). key_of g j \<noteq> K)
        | Some l \<Rightarrow> l < length (promises g) \<and> key_of g l = K \<and>
            (\<forall>j. l < j \<and> j < length (promises g) \<longrightarrow> key_of g j \<noteq> K))"

text \<open>A task that has left the queue has every earlier task of its key settled.\<close>

definition order_ok :: "gateway \<Rightarrow> bool" where
  "order_ok g \<longleftrightarrow>
     (\<forall>i j. i < j \<and> j < length (promises g) \<and> key_of g i = key_of g j \<and> state_of g j \<noteq> Queued
        \<longrightarrow> is_settled (state_of g i))"

definition fulfilled_ok :: "gateway \<Rightarrow> bool" where
  "fulfilled_ok g \<longleftrightarrow> (\<forall>i<length (promises g). \<forall>e. state_of g i \<noteq> Settled (Rejected e))"

text \<open>
  The log against the states: a settled task is in the log, an entry of the log is a settled
  task with that outcome, no task is logged twice, and an entry comes after the entries of
  all earlier tasks of its key.
\<close>

definition log_ok :: "gateway \<Rightarrow> bool" where
  "log_ok g \<longleftrightarrow>
     (\<forall>i<length (promises g). is_settled (state_of g i) \<longrightarrow> i \<in> fst ` set (delivered g)) \<and>
     (\<forall>x\<in>set (delivered g). fst x < length (promises g) \<and> state_of g (fst x) = Settled (snd x)) \<and>
     distinct (map fst (delivered g)) \<and>
     (\<forall>m<length (delivered g). \<forall>i<fst (delivered g ! m).
        key_of g i = key_of g (fst (delivered g ! m)) \<longrightarrow> i \<in> fst ` set (take m (delivered g)))"

text \<open>All four hold in every state the gateway reaches from its start.\<close>

definition sched_ok :: "gateway \<Rightarrow> bool" where
  "sched_ok g \<longleftrightarrow> chain_ok g \<and> order_ok g \<and> fulfilled_ok g \<and> log_ok g"

definition in_flight :: "pstate \<Rightarrow> bool" where
  "in_flight st = (case st of InFlight s ep \<Rightarrow> True | _ \<Rightarrow> False)"

text \<open>
  The histories against \<^verbatim>\<open>maxHistory\<close>: the session of a unit in flight holds at most
  \<^verbatim>\<open>maxHistory\<close> turns, and a session file is as it was at the start or holds at most one
  turn more than that.
\<close>

definition bounded :: "config \<Rightarrow> (string \<rightharpoonup> json option list) \<Rightarrow> gateway \<Rightarrow> bool" where
  "bounded cfg fs g \<longleftrightarrow>
     (\<forall>i<length (promises g). \<forall>s ep. state_of g i = InFlight s ep \<longrightarrow>
        int (length (history s)) \<le> effective_maxHistory cfg) \<and>
     (\<forall>p. files g p = fs p \<or>
        (\<exists>lines. files g p = Some lines \<and> int (length lines) \<le> effective_maxHistory cfg + 1))"

section \<open>A test scenario\<close>

text \<open>
  A gateway with \<^verbatim>\<open>maxHistory = 3\<close> and a default endpoint, the webchat events of one user,
  and an agent that answers the \<open>n\<close>-th question with a reply and the conversation id
  \<^verbatim>\<open>T1\<close>. A turn pair is an event submitted, its unit of work started, and the agent's answer
  coming back.
\<close>

definition example_config :: config where
  "example_config =
     \<lparr>endpoint = ''http://agent'', maxHistory = Some 3, channels = (\<lambda>c. None), dataDir = ''/data''\<rparr>"

definition example_event :: "nat \<Rightarrow> event" where
  "example_event n =
     \<lparr>channel = ''webchat'', chatId = ''web_u'', chatName = None, sender = ''u'',
      text' = ''q'' @ digits n, timestamp = Some (int n)\<rparr>"

definition example_key :: string where
  "example_key = sessionKey_of ''webchat'' ''web_u''"

definition example_path :: string where
  "example_path = sessionPath (sessionsDir example_config) example_key"

definition agent_answers :: "nat \<Rightarrow> fetch_outcome" where
  "agent_answers n =
     Response True (Some (JObj [(''reply'', JStr (''a'' @ digits n)), (''conversationId'', JStr ''T1'')]))"

definition turn_pair :: "nat \<Rightarrow> action list" where
  "turn_pair n =
     [Submit (example_event (n + 1)), RunThen n (100 + int n),
      AgentReturns n (agent_answers (n + 1)) (200 + int n) True]"

definition five_pairs :: "action list" where
  "five_pairs = concat (map turn_pair [0, 1, 2, 3, 4])"

definition question :: "nat \<Rightarrow> json" where
  "question n = user_turn (example_event n) 0"

definition answer_turn :: "nat \<Rightarrow> json" where
  "answer_turn n = assistant_turn (JStr (''a'' @ digits n)) (199 + int n)"

text \<open>Three events of one key submitted at once, and a turn whose save fails.\<close>

definition three_queued :: "action list" where
  "three_queued =
     [Submit (example_event 1), Submit (example_event 2), Submit (example_event 3),
      RunThen 0 100, AgentReturns 0 (agent_answers 1) 200 True, RunThen 1 101]"

definition three_done :: "action list" where
  "three_done =
     three_queued @ [AgentReturns 1 FetchFailed 201 True, RunThen 2 102,
                     AgentReturns 2 (agent_answers 3) 202 True]"

definition failing_turn :: "action list" where
  "failing_turn =
     [Submit (example_event 1), Submit (example_event 2), RunThen 0 100]"

text \<open>
  A session file with one question and its answer, and the next question up to the point
  where its unit of work waits for the agent; then the agent call fails, or the sweep runs
  first.
\<close>

definition one_pair_on_disk :: gateway where
  "one_pair_on_disk = init [example_path \<mapsto> map Some [question 1, answer_turn 1]]"

definition second_question_in_flight :: "action list" where
  "second_question_in_flight = [Submit (example_event 2), RunThen 0 150]"

definition failed_dispatch :: "action list" where
  "failed_dispatch = second_question_in_flight @ [AgentReturns 0 FetchFailed 151 True]"

definition swept_in_flight :: "action list" where
  "swept_in_flight = second_question_in_flight @ [Sweep 10000000 7200000]"

section \<open>Properties of the storage path\<close>

lemma safe_eq_iff:
  "safe k1 = safe k2 \<longleftrightarrow> list_all2 (\<lambda>a b. a = b \<or> masked a \<and> masked b) k1 k2"
proof (induction k1 arbitrary: k2)
  case Nil
  then show ?case by (simp add: safe_def)
next
  case (Cons a k1)
  show ?case
  proof (cases k2)
    case Nil
    then show ?thesis by (simp add: safe_def)
  next
    case (Cons b k2')
    have "safe (a # k1) = safe (b # k2') \<longleftrightarrow>
          (if safe_char a then a else CHR ''_'') = (if safe_char b then b else CHR ''_'') \<and> safe k1 = safe k2'"
      by (simp add: safe_def)
    moreover have "(if safe_char a then a else CHR ''_'') = (if safe_char b then b else CHR ''_'')
          \<longleftrightarrow> a = b \<or> masked a \<and> masked b"
      by (auto simp: masked_def safe_char_def)
    ultimately show ?thesis using Cons Cons.IH by simp
  qed
qed

text \<open>
  C6 (as stated it fails): the webchat keys of the user ids \<open>a.b\<close> and \<open>a_b\<close> are
  different session keys with the same storage path.
\<close>

theorem sessionPath_collision:
  "sessionKey_of ''webchat'' ''web_a.b'' \<noteq> sessionKey_of ''webchat'' ''web_a_b'' \<and>
   sessionPath ''/home/u/.empli/sessions'' (sessionKey_of ''webchat'' ''web_a.b'') =
   sessionPath ''/home/u/.empli/sessions'' (sessionKey_of ''webchat'' ''web_a_b'')"
  by (simp add: sessionKey_of_def sessionPath_def safe_def safe_char_def is_lower_def is_upper_def is_digit_def)

text \<open>
  C6 (amended): two session keys have the same storage path exactly when they have the same
  length and, at every position, either carry the same code unit or both carry a masked one
  (a code unit outside the allow-list or the placeholder \<open>_\<close>).
\<close>

theorem sessionPath_eq_iff:
  "sessionPath d k1 = sessionPath d k2 \<longleftrightarrow> list_all2 (\<lambda>a b. a = b \<or> masked a \<and> masked b) k1 k2"
  by (simp add: sessionPath_def safe_eq_iff)

section \<open>Properties of the permission system\<close>

lemma bash_not_listed: "''bash'' \<notin> set SAFE_TOOLS" "''bash'' \<notin> set MODERATE_TOOLS"
  by (simp_all add: SAFE_TOOLS_def MODERATE_TOOLS_def)

lemma delete_file_not_listed:
  "''delete_file'' \<notin> set SAFE_TOOLS" "''delete_file'' \<notin> set MODERATE_TOOLS"
  by (simp_all add: SAFE_TOOLS_def MODERATE_TOOLS_def)

lemma check_bash: "check ap ''bash'' inp = checkBash ap (property inp ''command'')"
  by (simp add: check_def bash_not_listed)

lemma danger_scan_eq:
  "danger_scan ap t ps =
     (if list_ex (\<lambda>pattern. test pattern t) ps
      then Some (if ''bash:'' @ t \<in> set (allowed ap) then Allowed
                 else if ''bash:'' @ t \<in> set (denied ap) then Denied
                 else NeedsApproval)
      else None)"
  by (induction ps) (simp_all add: Let_def)

lemma checkBash_string_allowed:
  assumes "''bash:'' @ trim c \<in> set (allowed ap)"
  shows "checkBash_string ap c = Allowed"
  using assms by (simp add: checkBash_string_def Let_def danger_scan_eq)

lemma checkBash_string_denied_cong:
  assumes "allowed ap' = allowed ap"
    and "''bash:'' @ trim c \<in> set (denied ap') \<longleftrightarrow> ''bash:'' @ trim c \<in> set (denied ap)"
  shows "checkBash_string ap' c = checkBash_string ap c"
  using assms by (simp add: checkBash_string_def Let_def danger_scan_eq)

lemma checkBash_not_string:
  assumes "\<And>c. v = Some (JStr c) \<Longrightarrow> c = []"
  shows "checkBash ap' v = checkBash ap v"
proof (cases v)
  case None
  then show ?thesis by simp
next
  case (Some x)
  with assms show ?thesis by (cases x) simp_all
qed

text \<open>
  C10: a bash action whose command is missing or the empty string is denied, whatever the
  decision records hold.
\<close>

theorem bash_without_command_denied:
  assumes "property inp ''command'' = None \<or> property inp ''command'' = Some (JStr [])"
  shows "check ap ''bash'' inp = Inr Denied"
  using assms by (auto simp: check_bash)

theorem bash_without_command_denied_witness:
  "check \<lparr>allowed = [''bash:'', ''bash:undefined'', ''bash_cmd:''], denied = []\<rparr> ''bash'' [] = Inr Denied \<and>
   check \<lparr>allowed = [''bash:'', ''bash:undefined'', ''bash_cmd:''], denied = []\<rparr> ''bash''
     [(''command'', JStr [])] = Inr Denied"
  using bash_without_command_denied [of "[]"]
    bash_without_command_denied [of "[(''command'', JStr [])]"]
  by (simp add: property_def)

text \<open>
  C8 (the code differs): \<^verbatim>\<open>delete_file\<close> is listed in \<^verbatim>\<open>DANGEROUS_TOOLS\<close> and not in
  \<^verbatim>\<open>MODERATE_TOOLS\<close>, so the branch that looks at the recursive flag is never taken for it:
  every \<^verbatim>\<open>delete_file\<close> request goes to the decision records, and one without the
  recursive flag needs approval when no decision is recorded.
\<close>

theorem delete_file_always_needs_decision:
  "''delete_file'' \<in> set DANGEROUS_TOOLS \<and> ''delete_file'' \<notin> set MODERATE_TOOLS \<and>
   check ap ''delete_file'' inp = Inr (checkApproval ap ''delete_file'' inp) \<and>
   check no_approvals ''delete_file'' [(''path'', JStr ''/tmp/x'')] = Inr NeedsApproval \<and>
   check no_approvals ''delete_file'' [(''path'', JStr ''/tmp/x''), (''recursive'', JBool False)]
     = Inr NeedsApproval"
proof -
  have "''delete_file'' \<in> set DANGEROUS_TOOLS"
    by (simp add: DANGEROUS_TOOLS_def)
  moreover have "check ap' ''delete_file'' inp' = Inr (checkApproval ap' ''delete_file'' inp')"
    for ap' inp'
    by (simp add: check_def delete_file_not_listed)
  ultimately show ?thesis
    by (simp add: delete_file_not_listed checkApproval_def no_approvals_def)
qed

text \<open>
  C9: the allowed list is consulted before the denied list. A key in the allowed list gives
  \<open>Allowed\<close> from \<^verbatim>\<open>_checkApproval\<close> and from \<^verbatim>\<open>_checkBash\<close> also when the denied list
  holds it too, and recording a deny decision for a request whose key is in the allowed list
  leaves the outcome of the same request as it was.
\<close>

theorem allowed_consulted_before_denied:
  "(approval_key toolName inp \<in> set (allowed ap) \<longrightarrow> checkApproval ap toolName inp = Allowed) \<and>
   (''bash:'' @ trim command \<in> set (allowed ap) \<longrightarrow> checkBash_string ap command = Allowed) \<and>
   (approve_key toolName inp \<in> set (allowed ap) \<longrightarrow>
      check (approve ap toolName inp False) toolName inp = check ap toolName inp)"
proof (intro conjI impI)
  assume "approval_key toolName inp \<in> set (allowed ap)"
  then show "checkApproval ap toolName inp = Allowed"
    by (simp add: checkApproval_def)
next
  assume "''bash:'' @ trim command \<in> set (allowed ap)"
  then show "checkBash_string ap command = Allowed"
    by (rule checkBash_string_allowed)
next
  assume key: "approve_key toolName inp \<in> set (allowed ap)"
  let ?ap = "approve ap toolName inp False"
  have al: "allowed ?ap = allowed ap"
    by (simp add: approve_def Let_def)
  show "check ?ap toolName inp = check ap toolName inp"
  proof (cases "toolName = ''bash''")
    case False
    with key have "approval_key toolName inp \<in> set (allowed ap)"
      by (simp add: approve_key_def)
    then have "checkApproval ?ap toolName inp = Allowed" "checkApproval ap toolName inp = Allowed"
      using al by (simp_all add: checkApproval_def)
    with False show ?thesis by (auto simp: check_def)
  next
    case True
    show ?thesis
    proof (cases "\<exists>c. property inp ''command'' = Some (JStr c) \<and> c \<noteq> []")
      case False
      then have "checkBash ?ap (property inp ''command'') = checkBash ap (property inp ''command'')"
        by (intro checkBash_not_string) auto
      with True show ?thesis by (simp add: check_bash)
    next
      case True
      then obtain c where c: "property inp ''command'' = Some (JStr c)" "c \<noteq> []" by blast
      have k: "approve_key toolName inp = ''bash:'' @ c"
        using \<open>toolName = ''bash''\<close> c by (simp add: approve_key_def template_def)
      have "checkBash_string ?ap c = checkBash_string ap c"
      proof (cases "trim c = c")
        case True
        with key k have "''bash:'' @ trim c \<in> set (allowed ap)" by simp
        then show ?thesis using al by (simp add: checkBash_string_allowed)
      next
        case False
        then have "''bash:'' @ trim c \<in> set (denied ?ap) \<longleftrightarrow> ''bash:'' @ trim c \<in> set (denied ap)"
          using k by (auto simp: approve_def Let_def)
        with al show ?thesis by (rule checkBash_string_denied_cong)
      qed
      with c \<open>toolName = ''bash''\<close> show ?thesis by (simp add: check_bash)
    qed
  qed
qed

theorem allowed_consulted_before_denied_witness:
  "checkApproval
     \<lparr>allowed = [approval_key ''kill_process'' [(''pid'', JNum 7)]],
      denied = [approval_key ''kill_process'' [(''pid'', JNum 7)]]\<rparr>
     ''kill_process'' [(''pid'', JNum 7)] = Allowed \<and>
   checkBash_string \<lparr>allowed = [''bash:sudo ls''], denied = [''bash:sudo ls'']\<rparr> ''sudo ls'' = Allowed \<and>
   check (approve \<lparr>allowed = [''bash:sudo ls''], denied = []\<rparr> ''bash'' [(''command'', JStr ''sudo ls'')] False)
     ''bash'' [(''command'', JStr ''sudo ls'')] = Inr Allowed"
proof -
  have 2: "trim ''sudo ls'' = ''sudo ls''"
    by code_simp
  have 3: "approve_key ''bash'' [(''command'', JStr ''sudo ls'')] = ''bash:sudo ls''"
    by code_simp
  have 4: "check \<lparr>allowed = [''bash:sudo ls''], denied = []\<rparr> ''bash'' [(''command'', JStr ''sudo ls'')] = Inr Allowed"
    by code_simp
  show ?thesis
    using allowed_consulted_before_denied [of "''kill_process''" "[(''pid'', JNum 7)]"
        "\<lparr>allowed = [approval_key ''kill_process'' [(''pid'', JNum 7)]],
          denied = [approval_key ''kill_process'' [(''pid'', JNum 7)]]\<rparr>" "''sudo ls''"]
      allowed_consulted_before_denied [of "''bash''" "[(''command'', JStr ''sudo ls'')]"
        "\<lparr>allowed = [''bash:sudo ls''], denied = [''bash:sudo ls'']\<rparr>" "''sudo ls''"]
      allowed_consulted_before_denied [of "''bash''" "[(''command'', JStr ''sudo ls'')]"
        "\<lparr>allowed = [''bash:sudo ls''], denied = []\<rparr>" "''sudo ls''"]
    by (simp add: 2 3 4)
qed

text \<open>
  C7 (the code differs): the danger patterns are the \<^verbatim>\<open>Patterns that should always require
  approval\<close>, and a command whose leading token is one of the common commands needs approval
  when it matches one (\<^verbatim>\<open>git rm -rf x\<close>). But a command whose leading token is in the
  safe-command list is allowed before the patterns are looked at: \<^verbatim>\<open>echo hi; rm -rf /tmp/x\<close>
  and \<^verbatim>\<open>echo x > /dev/sda\<close> match a danger pattern and are allowed on their first request.
  And an allow decision is recorded under the command as it was given while the check looks
  up the trimmed command: after the allow decision for \<^verbatim>\<open>rm -rf /tmp/x\<close> followed by a
  space, the same request still needs approval. For the command without white space at its
  ends the three steps of the claim come out as it says.
\<close>

theorem danger_pattern_bypassed:
  "dangerous (trim ''echo hi; rm -rf /tmp/x'') \<and>
   check no_approvals ''bash'' [(''command'', JStr ''echo hi; rm -rf /tmp/x'')] = Inr Allowed \<and>
   dangerous (trim ''echo x > /dev/sda'') \<and>
   check no_approvals ''bash'' [(''command'', JStr ''echo x > /dev/sda'')] = Inr Allowed \<and>
   dangerous (trim ''git rm -rf x'') \<and>
   check no_approvals ''bash'' [(''command'', JStr ''git rm -rf x'')] = Inr NeedsApproval \<and>
   dangerous (trim ''rm -rf /tmp/x '') \<and>
   check no_approvals ''bash'' [(''command'', JStr ''rm -rf /tmp/x '')] = Inr NeedsApproval \<and>
   check (approve no_approvals ''bash'' [(''command'', JStr ''rm -rf /tmp/x '')] True) ''bash''
     [(''command'', JStr ''rm -rf /tmp/x '')] = Inr NeedsApproval \<and>
   check no_approvals ''bash'' [(''command'', JStr ''rm -rf /tmp/x'')] = Inr NeedsApproval \<and>
   check (approve no_approvals ''bash'' [(''command'', JStr ''rm -rf /tmp/x'')] True) ''bash''
     [(''command'', JStr ''rm -rf /tmp/x'')] = Inr Allowed \<and>
   check (approve no_approvals ''bash'' [(''command'', JStr ''rm -rf /tmp/x'')] True) ''bash''
     [(''command'', JStr ''sudo reboot'')] = Inr NeedsApproval"
  by code_simp

section \<open>Properties of the unit of work\<close>

lemma loadSession_frame:
  assumes "loadSession cfg now key g = (s, g')"
  shows "files g' = files g" "promises g' = promises g" "locks g' = locks g"
    "delivered g' = delivered g" "sessions g' key = Some s"
  using assms by (auto simp: loadSession_def Let_def split: option.splits)

lemma begin_eq:
  assumes "loadSession cfg now key g = (s0, g1)"
  shows "processMessage_begin cfg now ev key g =
     (g1\<lparr>sessions := (sessions g1)(key \<mapsto> s0\<lparr>history := pushed cfg (user_turn ev now) (history s0)\<rparr>)\<rparr>,
      if resolve_endpoint cfg (channel ev) = [] then None
      else Some (s0\<lparr>history := pushed cfg (user_turn ev now) (history s0)\<rparr>, resolve_endpoint cfg (channel ev)))"
  using assms by (simp add: processMessage_begin_def Let_def pushed_def)

lemma begin_frame:
  assumes "processMessage_begin cfg now ev key g = (g', r)"
  shows "files g' = files g" "promises g' = promises g" "locks g' = locks g"
    "delivered g' = delivered g"
proof -
  obtain s0 g1 where l: "loadSession cfg now key g = (s0, g1)"
    by (cases "loadSession cfg now key g")
  from assms show "files g' = files g" "promises g' = promises g" "locks g' = locks g"
    "delivered g' = delivered g"
    unfolding begin_eq [OF l] using loadSession_frame [OF l] by auto
qed

lemma pushed_length:
  assumes "0 < effective_maxHistory cfg"
  shows "int (length (pushed cfg u h)) \<le> effective_maxHistory cfg"
  using assms by (auto simp: pushed_def slice_last_def)

lemma pushed_last:
  assumes "0 < effective_maxHistory cfg"
  shows "pushed cfg u h \<noteq> [] \<and> last (pushed cfg u h) = u"
  using assms by (auto simp: pushed_def slice_last_def)

lemma begin_bound:
  assumes "processMessage_begin cfg now ev key g = (g', Some (s, ep))"
    and "0 < effective_maxHistory cfg"
  shows "int (length (history s)) \<le> effective_maxHistory cfg"
proof -
  obtain s0 g1 where l: "loadSession cfg now key g = (s0, g1)"
    by (cases "loadSession cfg now key g")
  from assms(1) have "history s = pushed cfg (user_turn ev now) (history s0)"
    unfolding begin_eq [OF l] by (auto split: if_splits)
  with pushed_length [OF assms(2)] show ?thesis by simp
qed

lemma finish_no_reply:
  assumes "callAgent (history s) fo = None \<or>
           (\<exists>r. callAgent (history s) fo = Some r \<and> agent_reply r = None)"
  shows "processMessage_finish cfg now written key s fo g = (g, Inr None)"
  using assms by (auto simp: processMessage_finish_def)

lemma finish_frame:
  assumes "processMessage_finish cfg now written key s fo g = (g', r)"
  shows "promises g' = promises g" "locks g' = locks g" "delivered g' = delivered g"
  using assms
  by (auto simp: processMessage_finish_def saveSession_def Let_def split: option.splits if_splits)

lemma finish_files:
  assumes "processMessage_finish cfg now written key s fo g = (g', r)"
  shows "files g' = files g \<or>
         (\<exists>a. files g' = (files g)(sessionPath (sessionsDir cfg) key \<mapsto> map Some (history s @ [a])))"
  using assms
  by (auto simp: processMessage_finish_def saveSession_def Let_def split: option.splits if_splits)

lemma callAgent_failures:
  "callAgent h FetchFailed = None"
  "callAgent h (Response False body) = None"
  "callAgent h (Response True None) = None"
  "reply_of data = None \<Longrightarrow>
     callAgent h (Response True (Some data)) = None \<or>
     (\<exists>r. callAgent h (Response True (Some data)) = Some r \<and> agent_reply r = None)"
  by (auto simp: callAgent_def)

lemma run_started: "(case x of None \<Rightarrow> False | Some y \<Rightarrow> True) \<Longrightarrow> x = Some (the x)"
  by (cases x) simp_all

text \<open>
  C5 (the code differs): a file whose last assistant turn carries a conversation id gives
  it back on load. But the assistant turn that the unit of work pushes and saves carries
  none: after a successful turn pair the cached session holds the id \<^verbatim>\<open>T1\<close> the agent
  sent, and a load of the saved file into an empty cache yields no id.
\<close>

theorem saved_session_loses_conversationId:
  "read_session (map Some
      [question 1, JObj [(''role'', JStr ''assistant''), (''content'', JStr ''a1''), (''conversationId'', JStr ''T1'')],
       question 2, JObj [(''role'', JStr ''assistant''), (''content'', JStr ''a2''), (''conversationId'', JStr ''T2'')]])
     = Inr ([question 1, JObj [(''role'', JStr ''assistant''), (''content'', JStr ''a1''), (''conversationId'', JStr ''T1'')],
             question 2, JObj [(''role'', JStr ''assistant''), (''content'', JStr ''a2''), (''conversationId'', JStr ''T2'')]],
            Some (JStr ''T2'')) \<and>
   map_option conversationId (sessions (the (run example_config (turn_pair 0) (init Map.empty))) example_key)
     = Some (Some (JStr ''T1'')) \<and>
   files (the (run example_config (turn_pair 0) (init Map.empty))) example_path
     = Some (map Some [question 1, answer_turn 1]) \<and>
   conversationId (fst (loadSession example_config 300 example_key
      ((the (run example_config (turn_pair 0) (init Map.empty)))\<lparr>sessions := Map.empty\<rparr>))) = None"
  by code_simp

section \<open>Properties of the promise chains\<close>

lemma catch_null_fulfilled: "\<exists>v. catch_null x = Fulfilled v"
  by (cases x) simp_all

lemma set_state_fields:
  "promises (set_state i st g) = (promises g)[i := (promises g ! i)\<lparr>t_state := st\<rparr>]"
  "locks (set_state i st g) = locks g" "delivered (set_state i st g) = delivered g"
  "files (set_state i st g) = files g" "sessions (set_state i st g) = sessions g"
  by (simp_all add: set_state_def)

lemma settle_fields:
  "promises (settle i out g) = (promises g)[i := (promises g ! i)\<lparr>t_state := Settled out\<rparr>]"
  "locks (settle i out g) = locks g" "delivered (settle i out g) = delivered g @ [(i, out)]"
  "files (settle i out g) = files g" "sessions (settle i out g) = sessions g"
  by (simp_all add: settle_def set_state_fields)

lemma runThen_sched:
  assumes "runThen cfg i now g = Some g'"
  shows "sched g g'"
proof -
  from assms have i: "i < length (promises g)" and q: "state_of g i = Queued"
    by (auto simp: runThen_def state_of_def split: if_splits)
  from assms i q obtain out where p: "prev_outcome g (t_prev (promises g ! i)) = Some out"
    by (auto simp: runThen_def state_of_def split: option.splits)
  show ?thesis
  proof (cases out)
    case (Rejected e)
    with assms i q p have "g' = settle i (Fulfilled None) g"
      by (simp add: runThen_def state_of_def)
    with i q p show ?thesis
      by (intro sched.finish [of i g g' None]) (simp_all add: settle_fields)
  next
    case (Fulfilled v)
    with assms i q p have g': "g' = run_callback cfg i now g"
      by (simp add: runThen_def state_of_def)
    obtain g1 r where b: "processMessage_begin cfg now (t_event (promises g ! i)) (t_key (promises g ! i)) g = (g1, r)"
      by (cases "processMessage_begin cfg now (t_event (promises g ! i)) (t_key (promises g ! i)) g")
    note f = begin_frame [OF b]
    show ?thesis
    proof (cases r)
      case None
      with g' b have "g' = settle i (Fulfilled None) g1"
        by (simp add: run_callback_def Let_def)
      with i q p f show ?thesis
        by (intro sched.finish [of i g g' None]) (simp_all add: settle_fields)
    next
      case (Some se)
      obtain s ep where "se = (s, ep)" by (cases se)
      with Some g' b have "g' = set_state i (InFlight s ep) g1"
        by (simp add: run_callback_def Let_def)
      with i q p f show ?thesis
        by (intro sched.start [of i g g' s ep]) (simp_all add: set_state_fields)
    qed
  qed
qed

lemma agentReturns_sched:
  assumes "agentReturns cfg i fo now written g = Some g'"
  shows "sched g g'"
proof -
  from assms have i: "i < length (promises g)"
    by (auto simp: agentReturns_def split: if_splits)
  from assms i obtain s ep where st: "t_state (promises g ! i) = InFlight s ep"
    by (auto simp: agentReturns_def split: pstate.splits)
  obtain g1 r where b: "processMessage_finish cfg now written (t_key (promises g ! i)) s fo g = (g1, r)"
    by (cases "processMessage_finish cfg now written (t_key (promises g ! i)) s fo g")
  obtain v where v: "catch_null (settled_of r) = Fulfilled v"
    using catch_null_fulfilled by blast
  from assms i st b v have "g' = settle i (Fulfilled v) g1"
    by (simp add: agentReturns_def)
  with i st finish_frame [OF b] show ?thesis
    by (intro sched.finish [of i g g' v]) (auto simp: settle_fields state_of_def)
qed

lemma step_sched:
  assumes "step cfg a g = Some g'"
  shows "sched g g'"
proof (cases a)
  case (Submit ev)
  with assms have "g' = handleMessage ev g" by simp
  then show ?thesis
    by (intro sched.submit [of g' g "sessionKey_of (channel ev) (chatId ev)" ev])
       (simp_all add: handleMessage_def Let_def)
next
  case (RunThen i now)
  with assms show ?thesis by (simp add: runThen_sched)
next
  case (AgentReturns i fo now written)
  with assms show ?thesis by (simp add: agentReturns_sched)
next
  case (Sweep now maxAge)
  with assms have "g' = cleanExpiredSessions now maxAge g" by simp
  then show ?thesis
    by (intro sched.idle) (simp_all add: cleanExpiredSessions_def)
qed

lemma run_invariant:
  assumes "run cfg acts g = Some g'" and "I g"
    and "\<And>a h h'. I h \<Longrightarrow> step cfg a h = Some h' \<Longrightarrow> I h'"
  shows "I g'"
  using assms(1,2)
proof (induction acts arbitrary: g)
  case Nil
  then show ?case by simp
next
  case (Cons a acts)
  then obtain h where h: "step cfg a g = Some h" "run cfg acts h = Some g'"
    by (auto split: option.splits)
  from assms(3) [OF Cons.prems(2) h(1)] Cons.IH [OF h(2)] show ?case by blast
qed

lemma update_accessors:
  assumes "promises g' = (promises g)[i := (promises g ! i)\<lparr>t_state := st\<rparr>]" and "i < length (promises g)"
  shows "key_of g' j = key_of g j" "prev_of g' j = prev_of g j"
    "state_of g' j = (if j = i then st else state_of g j)" "length (promises g') = length (promises g)"
  using assms by (auto simp: key_of_def prev_of_def state_of_def nth_list_update)

lemma append_accessors:
  assumes "promises g' = promises g @ [t]"
  shows "j < length (promises g) \<Longrightarrow> key_of g' j = key_of g j"
    "j < length (promises g) \<Longrightarrow> prev_of g' j = prev_of g j"
    "j < length (promises g) \<Longrightarrow> state_of g' j = state_of g j"
    "key_of g' (length (promises g)) = t_key t" "prev_of g' (length (promises g)) = t_prev t"
    "state_of g' (length (promises g)) = t_state t"
    "length (promises g') = Suc (length (promises g))"
  using assms by (auto simp: key_of_def prev_of_def state_of_def nth_append)

lemma chain_ok_sched:
  assumes "sched g g'" and "chain_ok g"
  shows "chain_ok g'"
  using assms
proof (cases rule: sched.cases)
  case (submit K ev)
  note a = append_accessors [OF submit(1)]
  let ?n = "length (promises g)"
  have c1: "\<And>i. i < ?n \<Longrightarrow> (case prev_of g i of
          None \<Rightarrow> (\<forall>j<i. key_of g j \<noteq> key_of g i)
        | Some p \<Rightarrow> p < i \<and> key_of g p = key_of g i \<and> (\<forall>j. p < j \<and> j < i \<longrightarrow> key_of g j \<noteq> key_of g i))"
    and c2: "\<And>K. (case locks g K of
          None \<Rightarrow> (\<forall>j<?n. key_of g j \<noteq> K)
        | Some l \<Rightarrow> l < ?n \<and> key_of g l = K \<and> (\<forall>j. l < j \<and> j < ?n \<longrightarrow> key_of g j \<noteq> K))"
    using assms(2) by (auto simp: chain_ok_def)
  have "case prev_of g' i of
          None \<Rightarrow> (\<forall>j<i. key_of g' j \<noteq> key_of g' i)
        | Some p \<Rightarrow> p < i \<and> key_of g' p = key_of g' i \<and> (\<forall>j. p < j \<and> j < i \<longrightarrow> key_of g' j \<noteq> key_of g' i)"
    if "i < length (promises g')" for i
  proof (cases "i < ?n")
    case True
    with c1 [OF True] show ?thesis
      by (auto simp: a split: option.splits)
  next
    case False
    with that have i: "i = ?n" by (simp add: a)
    with c2 [of K] show ?thesis
      by (auto simp: a split: option.splits)
  qed
  moreover have "case locks g' K' of
          None \<Rightarrow> (\<forall>j<length (promises g'). key_of g' j \<noteq> K')
        | Some l \<Rightarrow> l < length (promises g') \<and> key_of g' l = K' \<and>
            (\<forall>j. l < j \<and> j < length (promises g') \<longrightarrow> key_of g' j \<noteq> K')" for K'
  proof (cases "K' = K")
    case True
    then show ?thesis by (auto simp: submit(2) a)
  next
    case False
    with c2 [of K'] show ?thesis
      by (auto simp: submit(2) a less_Suc_eq split: option.splits)
  qed
  ultimately show ?thesis by (simp add: chain_ok_def)
next
  case (start i s ep)
  note u = update_accessors [OF start(4) start(1)]
  from assms(2) show ?thesis by (simp add: chain_ok_def u start(5) cong: option.case_cong)
next
  case (finish i v)
  note u = update_accessors [OF finish(3) finish(1)]
  from assms(2) show ?thesis by (simp add: chain_ok_def u finish(4) cong: option.case_cong)
next
  case idle
  with assms(2) show ?thesis by (simp add: chain_ok_def key_of_def prev_of_def cong: option.case_cong)
qed

lemma order_okD:
  assumes "order_ok g" and "i < j" and "j < length (promises g)" and "key_of g i = key_of g j"
    and "state_of g j \<noteq> Queued"
  shows "is_settled (state_of g i)"
  using assms unfolding order_ok_def by blast

lemma ready_earlier_settled:
  assumes "chain_ok g" and "order_ok g" and "i < length (promises g)"
    and "prev_outcome g (prev_of g i) \<noteq> None" and "j < i" and "key_of g j = key_of g i"
  shows "is_settled (state_of g j)"
proof (cases "prev_of g i")
  case None
  with assms(1,3,5,6) show ?thesis
    by (auto simp: chain_ok_def)
next
  case (Some p)
  with assms(1,3) have p: "p < i" "key_of g p = key_of g i"
    "\<And>k. p < k \<Longrightarrow> k < i \<Longrightarrow> key_of g k \<noteq> key_of g i"
    by (auto simp: chain_ok_def split: option.splits)
  from assms(4) Some have sp: "is_settled (state_of g p)"
    by (auto simp: prev_outcome_def state_of_def is_settled_def split: if_splits pstate.splits)
  then have nq: "state_of g p \<noteq> Queued"
    by (auto simp: is_settled_def)
  consider "j = p" | "j < p" | "p < j" by linarith
  then show ?thesis
  proof cases
    case 1
    with sp show ?thesis by simp
  next
    case 2
    with assms(2,3,6) p nq show ?thesis
      by (intro order_okD [of g j p]) simp_all
  next
    case 3
    with p(3) assms(5,6) show ?thesis by blast
  qed
qed

lemma order_ok_sched:
  assumes "sched g g'" and "chain_ok g" and "order_ok g"
  shows "order_ok g'"
  using assms(1)
proof (cases rule: sched.cases)
  case (submit K ev)
  note a = append_accessors [OF submit(1)]
  show ?thesis
    unfolding order_ok_def
  proof (intro allI impI)
    fix i j
    assume h: "i < j \<and> j < length (promises g') \<and> key_of g' i = key_of g' j \<and> state_of g' j \<noteq> Queued"
    then have "j \<noteq> length (promises g)" by (auto simp: a)
    with h have "j < length (promises g)" "i < length (promises g)" by (auto simp: a)
    with h assms(3) have "is_settled (state_of g i)"
      by (intro order_okD [of g i j]) (auto simp: a)
    with \<open>i < length (promises g)\<close> show "is_settled (state_of g' i)"
      by (simp add: a)
  qed
next
  case (start i s ep)
  note u = update_accessors [OF start(4) start(1)]
  show ?thesis
    unfolding order_ok_def
  proof (intro allI impI)
    fix a b
    assume h: "a < b \<and> b < length (promises g') \<and> key_of g' a = key_of g' b \<and> state_of g' b \<noteq> Queued"
    have "is_settled (state_of g a)"
    proof (cases "b = i")
      case True
      with h start(1,3) assms(2,3) show ?thesis
        by (intro ready_earlier_settled [of g i a]) (simp_all add: u prev_of_def)
    next
      case False
      with h assms(3) show ?thesis
        by (intro order_okD [of g a b]) (auto simp: u)
    qed
    moreover from this start(2) have "a \<noteq> i" by (auto simp: is_settled_def)
    ultimately show "is_settled (state_of g' a)" by (simp add: u)
  qed
next
  case (finish i v)
  note u = update_accessors [OF finish(3) finish(1)]
  show ?thesis
    unfolding order_ok_def
  proof (intro allI impI)
    fix a b
    assume h: "a < b \<and> b < length (promises g') \<and> key_of g' a = key_of g' b \<and> state_of g' b \<noteq> Queued"
    show "is_settled (state_of g' a)"
    proof (cases "a = i")
      case True
      then show ?thesis by (simp add: u is_settled_def)
    next
      case False
      have "is_settled (state_of g a)"
      proof (cases "b = i")
        case True
        from finish(2) show ?thesis
        proof
          assume "state_of g i = Queued \<and> prev_outcome g (t_prev (promises g ! i)) \<noteq> None"
          with True h finish(1) assms(2,3) show ?thesis
            by (intro ready_earlier_settled [of g i a]) (simp_all add: u prev_of_def)
        next
          assume "\<exists>s ep. state_of g i = InFlight s ep"
          with True h finish(1) assms(3) show ?thesis
            by (intro order_okD [of g a i]) (auto simp: u)
        qed
      next
        case False
        with h assms(3) show ?thesis
          by (intro order_okD [of g a b]) (auto simp: u)
      qed
      with False show ?thesis by (simp add: u)
    qed
  qed
next
  case idle
  with assms(3) show ?thesis by (simp add: order_ok_def key_of_def state_of_def)
qed

lemma fulfilled_ok_sched:
  assumes "sched g g'" and "fulfilled_ok g"
  shows "fulfilled_ok g'"
  using assms
proof (cases rule: sched.cases)
  case (submit K ev)
  note a = append_accessors [OF submit(1)]
  from assms(2) show ?thesis
    by (auto simp: fulfilled_ok_def a less_Suc_eq)
next
  case (start i s ep)
  note u = update_accessors [OF start(4) start(1)]
  from assms(2) show ?thesis by (auto simp: fulfilled_ok_def u)
next
  case (finish i v)
  note u = update_accessors [OF finish(3) finish(1)]
  from assms(2) show ?thesis by (auto simp: fulfilled_ok_def u)
next
  case idle
  with assms(2) show ?thesis by (simp add: fulfilled_ok_def state_of_def)
qed

lemma log_okD:
  assumes "log_ok g"
  shows "\<And>i. i < length (promises g) \<Longrightarrow> is_settled (state_of g i) \<Longrightarrow> i \<in> fst ` set (delivered g)"
    and "\<And>x. x \<in> set (delivered g) \<Longrightarrow> fst x < length (promises g) \<and> state_of g (fst x) = Settled (snd x)"
    and "distinct (map fst (delivered g))"
    and "\<And>m i. m < length (delivered g) \<Longrightarrow> i < fst (delivered g ! m) \<Longrightarrow>
          key_of g i = key_of g (fst (delivered g ! m)) \<Longrightarrow> i \<in> fst ` set (take m (delivered g))"
  using assms unfolding log_ok_def by blast+

lemma log_ok_sched:
  assumes "sched g g'" and "chain_ok g" and "order_ok g" and "log_ok g"
  shows "log_ok g'"
  using assms(1)
proof (cases rule: sched.cases)
  case (submit K ev)
  note a = append_accessors [OF submit(1)]
  note l = log_okD [OF assms(4)]
  have 1: "\<forall>i<length (promises g'). is_settled (state_of g' i) \<longrightarrow> i \<in> fst ` set (delivered g')"
    using l(1) by (auto simp: a submit(3) less_Suc_eq is_settled_def)
  have 2: "\<forall>x\<in>set (delivered g'). fst x < length (promises g') \<and> state_of g' (fst x) = Settled (snd x)"
  proof
    fix x assume "x \<in> set (delivered g')"
    then have "fst x < length (promises g) \<and> state_of g (fst x) = Settled (snd x)"
      using l(2) [of x] by (simp add: submit(3))
    then show "fst x < length (promises g') \<and> state_of g' (fst x) = Settled (snd x)"
      by (simp add: a)
  qed
  have 3: "distinct (map fst (delivered g'))"
    using l(3) by (simp add: submit(3))
  have 4: "i \<in> fst ` set (take m (delivered g'))"
    if "m < length (delivered g')" "i < fst (delivered g' ! m)"
      "key_of g' i = key_of g' (fst (delivered g' ! m))" for m i
  proof -
    from that(1) have "delivered g ! m \<in> set (delivered g)" by (simp add: submit(3))
    with l(2) have "fst (delivered g ! m) < length (promises g)" by blast
    with that l(4) [of m i] show ?thesis by (simp add: submit(3) a)
  qed
  from 1 2 3 4 show ?thesis unfolding log_ok_def by blast
next
  case (start i s ep)
  note u = update_accessors [OF start(4) start(1)]
  note l = log_okD [OF assms(4)]
  have ni: "i \<notin> fst ` set (delivered g)"
    using l(2) start(2) by force
  have 1: "\<forall>j<length (promises g'). is_settled (state_of g' j) \<longrightarrow> j \<in> fst ` set (delivered g')"
    using l(1) by (auto simp: u start(6) is_settled_def)
  have 2: "\<forall>x\<in>set (delivered g'). fst x < length (promises g') \<and> state_of g' (fst x) = Settled (snd x)"
    using l(2) ni by (auto simp: u start(6))
  have 3: "distinct (map fst (delivered g'))"
    using l(3) by (simp add: start(6))
  have 4: "\<forall>m<length (delivered g'). \<forall>j<fst (delivered g' ! m).
        key_of g' j = key_of g' (fst (delivered g' ! m)) \<longrightarrow> j \<in> fst ` set (take m (delivered g'))"
    using l(4) by (simp add: start(6) u)
  from 1 2 3 4 show ?thesis unfolding log_ok_def by blast
next
  case (finish i v)
  note u = update_accessors [OF finish(3) finish(1)]
  note l = log_okD [OF assms(4)]
  have ns: "\<not> is_settled (state_of g i)"
    using finish(2) by (auto simp: is_settled_def)
  have ni: "i \<notin> fst ` set (delivered g)"
  proof
    assume "i \<in> fst ` set (delivered g)"
    then obtain x where "x \<in> set (delivered g)" "fst x = i" by auto
    with l(2) [of x] ns show False by (simp add: is_settled_def)
  qed
  have earlier: "j \<in> fst ` set (delivered g)" if "j < i" "key_of g j = key_of g i" for j
  proof -
    from finish(2) have "is_settled (state_of g j)"
    proof
      assume "state_of g i = Queued \<and> prev_outcome g (t_prev (promises g ! i)) \<noteq> None"
      with that finish(1) assms(2,3) show ?thesis
        by (intro ready_earlier_settled [of g i j]) (simp_all add: prev_of_def)
    next
      assume "\<exists>s ep. state_of g i = InFlight s ep"
      with that finish(1) assms(3) show ?thesis
        by (intro order_okD [of g j i]) auto
    qed
    with that finish(1) l(1) [of j] show ?thesis by simp
  qed
  have 1: "\<forall>j<length (promises g'). is_settled (state_of g' j) \<longrightarrow> j \<in> fst ` set (delivered g')"
    using l(1) by (auto simp: u finish(5))
  have 2: "\<forall>x\<in>set (delivered g'). fst x < length (promises g') \<and> state_of g' (fst x) = Settled (snd x)"
    using l(2) ni finish(1) by (auto simp: u finish(5))
  have 3: "distinct (map fst (delivered g'))"
    using l(3) ni by (simp add: finish(5))
  have 4: "j \<in> fst ` set (take m (delivered g'))"
    if "m < length (delivered g')" "j < fst (delivered g' ! m)"
      "key_of g' j = key_of g' (fst (delivered g' ! m))" for m j
  proof (cases "m < length (delivered g)")
    case True
    with that l(4) [of m j] show ?thesis by (simp add: finish(5) u nth_append)
  next
    case False
    with that(1) have m: "m = length (delivered g)" by (simp add: finish(5))
    with that earlier [of j] show ?thesis by (simp add: finish(5) u)
  qed
  from 1 2 3 4 show ?thesis unfolding log_ok_def by blast
next
  case idle
  with assms(4) show ?thesis by (simp add: log_ok_def key_of_def state_of_def)
qed

lemma sched_ok_init: "sched_ok (init fs)"
  by (simp add: sched_ok_def chain_ok_def order_ok_def fulfilled_ok_def log_ok_def init_def)

lemma sched_ok_step:
  assumes "sched_ok g" and "step cfg a g = Some g'"
  shows "sched_ok g'"
  using assms step_sched [OF assms(2)]
  by (simp add: sched_ok_def chain_ok_sched order_ok_sched fulfilled_ok_sched log_ok_sched)

lemma sched_ok_run:
  assumes "run cfg acts (init fs) = Some g"
  shows "sched_ok g"
  using assms sched_ok_init sched_ok_step by (rule run_invariant)

lemma runThen_ready:
  assumes "chain_ok g" and "fulfilled_ok g" and "i < length (promises g)" and "state_of g i = Queued"
    and "\<And>j. j < i \<Longrightarrow> key_of g j = key_of g i \<Longrightarrow> is_settled (state_of g j)"
  shows "runThen cfg i now g = Some (run_callback cfg i now g)"
proof (cases "prev_of g i")
  case None
  with assms(3,4) show ?thesis
    by (simp add: runThen_def prev_outcome_def prev_of_def state_of_def)
next
  case (Some p)
  with assms(1,3) have p: "p < i" "key_of g p = key_of g i"
    by (auto simp: chain_ok_def split: option.splits)
  with assms(5) have "is_settled (state_of g p)" by blast
  then obtain out where out: "state_of g p = Settled out"
    by (auto simp: is_settled_def split: pstate.splits)
  with assms(2,3) p(1) obtain v where "out = Fulfilled v"
    by (cases out) (auto simp: fulfilled_ok_def)
  with out Some assms(3,4) p(1) show ?thesis
    by (simp add: runThen_def prev_outcome_def prev_of_def state_of_def)
qed

lemma runThen_callback:
  assumes "fulfilled_ok g" and "runThen cfg i now g = Some g'"
  shows "g' = run_callback cfg i now g"
proof -
  from assms(2) have i: "i < length (promises g)" "t_state (promises g ! i) = Queued"
    by (auto simp: runThen_def split: if_splits)
  with assms(2) obtain out where o: "prev_outcome g (t_prev (promises g ! i)) = Some out"
    by (auto simp: runThen_def split: option.splits)
  have "\<exists>v. out = Fulfilled v"
  proof (cases "t_prev (promises g ! i)")
    case None
    with o show ?thesis by (auto simp: prev_outcome_def)
  next
    case (Some p)
    with o have "p < length (promises g)" "state_of g p = Settled out"
      by (auto simp: prev_outcome_def state_of_def split: if_splits pstate.splits)
    with assms(1) show ?thesis
      by (cases out) (auto simp: fulfilled_ok_def)
  qed
  with assms(2) i o show ?thesis
    by (auto simp: runThen_def)
qed

text \<open>
  C2: in every state the gateway reaches, whatever the order of submissions, reactions and
  agent returns: a unit of work has left the queue only when every unit submitted before
  it on its key has settled, so at most one unit of a key is in flight; the outcome of a
  unit is delivered after the outcomes of all units submitted before it on its key, and
  once; the delivered outcomes are those of the settled units; the reaction of a queued
  unit whose predecessors have all settled is due; and a reaction that fires always runs
  the unit of work, never the branch that skips it.
\<close>

theorem fifo_per_key:
  assumes "run cfg acts (init fs) = Some g"
  shows "(\<forall>i j. i < j \<and> j < length (promises g) \<and> key_of g i = key_of g j \<and> state_of g j \<noteq> Queued
            \<longrightarrow> is_settled (state_of g i)) \<and>
         (\<forall>i j. i < length (promises g) \<and> j < length (promises g) \<and> key_of g i = key_of g j \<and>
            in_flight (state_of g i) \<and> in_flight (state_of g j) \<longrightarrow> i = j) \<and>
         (\<forall>m<length (delivered g). \<forall>i<fst (delivered g ! m).
            key_of g i = key_of g (fst (delivered g ! m)) \<longrightarrow> i \<in> fst ` set (take m (delivered g))) \<and>
         distinct (map fst (delivered g)) \<and>
         (\<forall>i<length (promises g). is_settled (state_of g i) \<longleftrightarrow> i \<in> fst ` set (delivered g)) \<and>
         (\<forall>i now. i < length (promises g) \<and> state_of g i = Queued \<and>
            (\<forall>j<i. key_of g j = key_of g i \<longrightarrow> is_settled (state_of g j))
            \<longrightarrow> runThen cfg i now g = Some (run_callback cfg i now g)) \<and>
         (\<forall>i now g'. runThen cfg i now g = Some g' \<longrightarrow> g' = run_callback cfg i now g)"
proof -
  from sched_ok_run [OF assms] have c: "chain_ok g" and o: "order_ok g" and f: "fulfilled_ok g"
    and l: "log_ok g"
    by (simp_all add: sched_ok_def)
  have 1: "\<forall>i j. i < j \<and> j < length (promises g) \<and> key_of g i = key_of g j \<and> state_of g j \<noteq> Queued
            \<longrightarrow> is_settled (state_of g i)"
    using o by (simp add: order_ok_def)
  have 2: "i = j" if "i < length (promises g)" "j < length (promises g)" "key_of g i = key_of g j"
    "in_flight (state_of g i)" "in_flight (state_of g j)" for i j
  proof (rule ccontr)
    assume "i \<noteq> j"
    then consider "i < j" | "j < i" by linarith
    then show False
    proof cases
      case 1
      with that o have "is_settled (state_of g i)"
        by (intro order_okD [of g i j]) (auto simp: in_flight_def)
      with that(4) show False by (auto simp: in_flight_def is_settled_def split: pstate.splits)
    next
      case 2
      with that o have "is_settled (state_of g j)"
        by (intro order_okD [of g j i]) (auto simp: in_flight_def)
      with that(5) show False by (auto simp: in_flight_def is_settled_def split: pstate.splits)
    qed
  qed
  have 5: "\<forall>i<length (promises g). is_settled (state_of g i) \<longleftrightarrow> i \<in> fst ` set (delivered g)"
  proof (intro allI impI iffI)
    fix i assume "i < length (promises g)" "is_settled (state_of g i)"
    then show "i \<in> fst ` set (delivered g)" using log_okD(1) [OF l] by blast
  next
    fix i assume "i \<in> fst ` set (delivered g)"
    then obtain x where "x \<in> set (delivered g)" "fst x = i" by auto
    with log_okD(2) [OF l, of x] show "is_settled (state_of g i)" by (simp add: is_settled_def)
  qed
  have 6: "\<forall>i now. i < length (promises g) \<and> state_of g i = Queued \<and>
            (\<forall>j<i. key_of g j = key_of g i \<longrightarrow> is_settled (state_of g j))
            \<longrightarrow> runThen cfg i now g = Some (run_callback cfg i now g)"
    using runThen_ready [OF c f] by blast
  have 7: "\<forall>i now g'. runThen cfg i now g = Some g' \<longrightarrow> g' = run_callback cfg i now g"
    using runThen_callback [OF f] by blast
  have one_in_flight: "\<forall>i j. i < length (promises g) \<and> j < length (promises g) \<and> key_of g i = key_of g j \<and>
            in_flight (state_of g i) \<and> in_flight (state_of g j) \<longrightarrow> i = j"
    using 2 by blast
  have 3: "\<forall>m<length (delivered g). \<forall>i<fst (delivered g ! m).
            key_of g i = key_of g (fst (delivered g ! m)) \<longrightarrow> i \<in> fst ` set (take m (delivered g))"
    using log_okD(4) [OF l] by blast
  note 4 = log_okD(3) [OF l]
  from 1 one_in_flight 3 4 5 6 7 show ?thesis by (intro conjI)
qed

theorem fifo_per_key_witness:
  "is_settled (state_of (the (run example_config three_queued (init Map.empty))) 0) \<and>
   in_flight (state_of (the (run example_config three_queued (init Map.empty))) 1) \<and>
   state_of (the (run example_config three_queued (init Map.empty))) 2 = Queued \<and>
   runThen example_config 2 102 (the (run example_config three_queued (init Map.empty))) = None \<and>
   map fst (delivered (the (run example_config three_done (init Map.empty)))) = [0, 1, 2] \<and>
   distinct (map fst (delivered (the (run example_config three_done (init Map.empty)))))"
proof -
  let ?g = "the (run example_config three_queued (init Map.empty))"
  let ?h = "the (run example_config three_done (init Map.empty))"
  have g: "run example_config three_queued (init Map.empty) = Some ?g"
    by (rule run_started) code_simp
  have h: "run example_config three_done (init Map.empty) = Some ?h"
    by (rule run_started) code_simp
  have facts: "(0::nat) < 1" "1 < length (promises ?g)" "key_of ?g 0 = key_of ?g 1" "in_flight (state_of ?g 1)"
    "state_of ?g 2 = Queued" "map fst (delivered ?h) = [0, 1, 2]"
    by code_simp+
  have r: "runThen example_config 2 102 ?g = None"
    by (simp add: runThen_def prev_outcome_def) code_simp
  from facts(4) have nq: "state_of ?g 1 \<noteq> Queued"
    by (auto simp: in_flight_def)
  from fifo_per_key [OF g]
  have "\<forall>i j. i < j \<and> j < length (promises ?g) \<and> key_of ?g i = key_of ?g j \<and> state_of ?g j \<noteq> Queued
            \<longrightarrow> is_settled (state_of ?g i)"
    by (rule conjunct1)
  from this [rule_format, of 0 1] facts(1-3) nq have s0: "is_settled (state_of ?g 0)"
    by simp
  from fifo_per_key [OF h] have d: "distinct (map fst (delivered ?h))"
    by (elim conjE)
  from s0 facts(4,5,6) r d show ?thesis
    by (intro conjI)
qed

lemma agentReturns_settles:
  assumes "i < length (promises g)" and "state_of g i = InFlight s ep"
    and "processMessage_finish cfg now written (key_of g i) s fo g = (g1, r)"
  shows "agentReturns cfg i fo now written g = Some (settle i (catch_null (settled_of r)) g1)"
  using assms by (simp add: agentReturns_def state_of_def key_of_def)

lemma state_of_settle:
  assumes "promises g1 = promises g" and "i < length (promises g)"
  shows "state_of (settle i out g1) i = Settled out"
  using assms by (simp add: state_of_def settle_fields)

lemma agentReturns_answer:
  assumes "j < length (promises g)" and "state_of g j = InFlight s ep"
    and "callAgent (history s) fo = Some resp" and "agent_reply resp = Some a"
  shows "\<exists>g'. agentReturns cfg j fo now True g = Some g' \<and>
           state_of g' j = Settled (Fulfilled (Some \<lparr>reply = a, sessionKey = key_of g j\<rparr>))"
proof -
  obtain g1 r where f: "processMessage_finish cfg now True (key_of g j) s fo g = (g1, r)"
    by (cases "processMessage_finish cfg now True (key_of g j) s fo g")
  with assms(3,4) have r: "r = Inr (Some \<lparr>reply = a, sessionKey = key_of g j\<rparr>)"
    by (auto simp: processMessage_finish_def saveSession_def Let_def split: option.splits)
  from agentReturns_settles [OF assms(1,2) f] state_of_settle [OF finish_frame(1) [OF f] assms(1)]
  show ?thesis by (simp add: r)
qed

lemma run_callback_frame:
  assumes "i < length (promises g)"
  shows "length (promises (run_callback cfg i now g)) = length (promises g)"
    and "key_of (run_callback cfg i now g) j = key_of g j"
proof -
  obtain g1 r where b: "processMessage_begin cfg now (t_event (promises g ! i)) (t_key (promises g ! i)) g = (g1, r)"
    by (cases "processMessage_begin cfg now (t_event (promises g ! i)) (t_key (promises g ! i)) g")
  have "\<exists>st. promises (run_callback cfg i now g) = (promises g)[i := (promises g ! i)\<lparr>t_state := st\<rparr>]"
    using b begin_frame(2) [OF b]
    by (cases r) (auto simp: run_callback_def Let_def settle_fields set_state_fields)
  then obtain st where "promises (run_callback cfg i now g) = (promises g)[i := (promises g ! i)\<lparr>t_state := st\<rparr>]" ..
  from update_accessors(1,4) [OF this assms]
  show "length (promises (run_callback cfg i now g)) = length (promises g)"
    and "key_of (run_callback cfg i now g) j = key_of g j" by simp_all
qed

text \<open>
  C1: in every state the gateway reaches, when the agent call of a unit in flight returns,
  whatever it returns and whether or not the save throws, the promise of the unit settles
  fulfilled, with \<^verbatim>\<open>null\<close> when the unit of work threw; no promise is rejected; and the
  reaction of the next promise chained on it is due and runs the unit of work of the next
  event, which, when its agent call brings a reply and its save succeeds, is answered with
  that reply.
\<close>

theorem failure_does_not_poison_chain:
  assumes "run cfg acts (init fs) = Some g" and "i < length (promises g)"
    and "state_of g i = InFlight s ep"
  shows "\<exists>g' r. agentReturns cfg i fo now written g = Some g' \<and>
           state_of g' i = Settled (Fulfilled r) \<and>
           (\<forall>e. snd (processMessage_finish cfg now written (key_of g i) s fo g) = Inl e \<longrightarrow> r = None) \<and>
           (\<forall>j e. j < length (promises g') \<longrightarrow> state_of g' j \<noteq> Settled (Rejected e)) \<and>
           (\<forall>j now'. j < length (promises g') \<and> prev_of g' j = Some i \<longrightarrow>
              runThen cfg j now' g' = Some (run_callback cfg j now' g') \<and>
              (\<forall>s' ep' fo' now'' resp a.
                 state_of (run_callback cfg j now' g') j = InFlight s' ep' \<and>
                 callAgent (history s') fo' = Some resp \<and> agent_reply resp = Some a \<longrightarrow>
                 (\<exists>g''. agentReturns cfg j fo' now'' True (run_callback cfg j now' g') = Some g'' \<and>
                    state_of g'' j = Settled (Fulfilled (Some \<lparr>reply = a, sessionKey = key_of g j\<rparr>)))))"
proof -
  obtain g1 r0 where f: "processMessage_finish cfg now written (key_of g i) s fo g = (g1, r0)"
    by (cases "processMessage_finish cfg now written (key_of g i) s fo g")
  obtain r where r: "catch_null (settled_of r0) = Fulfilled r"
    using catch_null_fulfilled by blast
  define g' where "g' = settle i (Fulfilled r) g1"
  have a: "agentReturns cfg i fo now written g = Some g'"
    using agentReturns_settles [OF assms(2,3) f] by (simp add: r g'_def)
  have st: "state_of g' i = Settled (Fulfilled r)"
    using state_of_settle [OF finish_frame(1) [OF f] assms(2)] by (simp add: g'_def)
  have thrown: "r = None" if "snd (processMessage_finish cfg now written (key_of g i) s fo g) = Inl e" for e
    using that f r by simp
  have ok: "sched_ok g" by (rule sched_ok_run [OF assms(1)])
  then have ok': "sched_ok g'"
    using a by (intro sched_ok_step [of g cfg "AgentReturns i fo now written" g']) simp_all
  have pr: "promises g' = (promises g)[i := (promises g ! i)\<lparr>t_state := Settled (Fulfilled r)\<rparr>]"
    by (simp add: g'_def settle_fields finish_frame(1) [OF f])
  note u = update_accessors [OF pr assms(2)]
  have rej: "\<forall>j e. j < length (promises g') \<longrightarrow> state_of g' j \<noteq> Settled (Rejected e)"
    using ok' by (simp add: sched_ok_def fulfilled_ok_def)
  have next_runs: "runThen cfg j now' g' = Some (run_callback cfg j now' g') \<and>
      (\<forall>s' ep' fo' now'' resp a.
         state_of (run_callback cfg j now' g') j = InFlight s' ep' \<and>
         callAgent (history s') fo' = Some resp \<and> agent_reply resp = Some a \<longrightarrow>
         (\<exists>g''. agentReturns cfg j fo' now'' True (run_callback cfg j now' g') = Some g'' \<and>
            state_of g'' j = Settled (Fulfilled (Some \<lparr>reply = a, sessionKey = key_of g j\<rparr>))))"
    if j: "j < length (promises g')" "prev_of g' j = Some i" for j now'
  proof -
    from ok' j have ij: "i < j" "key_of g' i = key_of g' j"
      by (auto simp: sched_ok_def chain_ok_def split: option.splits)
    have "state_of g j = Queued"
    proof (rule ccontr)
      assume "state_of g j \<noteq> Queued"
      with ok ij j(1) have "is_settled (state_of g i)"
        by (intro order_okD [of g i j]) (simp_all add: sched_ok_def u)
      with assms(3) show False by (simp add: is_settled_def)
    qed
    with ij have q: "state_of g' j = Queued" by (simp add: u)
    have "prev_outcome g' (t_prev (promises g' ! j)) = Some (Fulfilled r)"
      using j(2) st assms(2) by (simp add: prev_outcome_def prev_of_def state_of_def u(4))
    with j(1) q have 1: "runThen cfg j now' g' = Some (run_callback cfg j now' g')"
      by (simp add: runThen_def state_of_def)
    note rc = run_callback_frame [OF j(1), of cfg now']
    have 2: "\<exists>g''. agentReturns cfg j fo' now'' True (run_callback cfg j now' g') = Some g'' \<and>
            state_of g'' j = Settled (Fulfilled (Some \<lparr>reply = a, sessionKey = key_of g j\<rparr>))"
      if "state_of (run_callback cfg j now' g') j = InFlight s' ep'"
        "callAgent (history s') fo' = Some resp" "agent_reply resp = Some a"
      for s' ep' fo' now'' resp a
      using agentReturns_answer [OF _ that, of cfg now''] j(1) by (simp add: rc u)
    from 1 2 show ?thesis by blast
  qed
  from a st thrown rej next_runs show ?thesis by blast
qed

theorem failure_does_not_poison_chain_witness:
  "in_flight (state_of (the (run example_config failing_turn (init Map.empty))) 0) \<and>
   map (\<lambda>t. is_settled (t_state t)) (promises (the (run example_config
      (failing_turn @ [AgentReturns 0 (agent_answers 1) 200 False]) (init Map.empty)))) = [True, False] \<and>
   delivered (the (run example_config
      (failing_turn @ [AgentReturns 0 (agent_answers 1) 200 False, RunThen 1 101,
                       AgentReturns 1 (agent_answers 2) 201 True]) (init Map.empty)))
     = [(0, Fulfilled None), (1, Fulfilled (Some \<lparr>reply = JStr ''a2'', sessionKey = example_key\<rparr>))] \<and>
   (\<exists>g' r. agentReturns example_config 0 (agent_answers 1) 200 False
              (the (run example_config failing_turn (init Map.empty))) = Some g' \<and>
            state_of g' 0 = Settled (Fulfilled r) \<and> r = None \<and>
            runThen example_config 1 101 g' = Some (run_callback example_config 1 101 g'))"
proof -
  let ?g = "the (run example_config failing_turn (init Map.empty))"
  have g: "run example_config failing_turn (init Map.empty) = Some ?g"
    by (rule run_started) code_simp
  have facts: "0 < length (promises ?g)" "in_flight (state_of ?g 0)"
    by code_simp+
  then obtain s ep where s: "state_of ?g 0 = InFlight s ep"
    by (auto simp: in_flight_def split: pstate.splits)
  have thrown: "snd (processMessage_finish example_config 200 False (key_of ?g 0)
      (case state_of ?g 0 of InFlight s ep \<Rightarrow> s) (agent_answers 1) ?g) = Inl IOError"
    by code_simp
  from failure_does_not_poison_chain [OF g facts(1) s, of "agent_answers 1" 200 False]
  obtain g' r where w: "agentReturns example_config 0 (agent_answers 1) 200 False ?g = Some g'"
    "state_of g' 0 = Settled (Fulfilled r)"
    "\<forall>e. snd (processMessage_finish example_config 200 False (key_of ?g 0) s (agent_answers 1) ?g) = Inl e \<longrightarrow> r = None"
    "\<forall>j now'. j < length (promises g') \<and> prev_of g' j = Some 0 \<longrightarrow>
        runThen example_config j now' g' = Some (run_callback example_config j now' g')"
    by blast
  from thrown s w(3) have r: "r = None" by simp
  have "length (promises (the (agentReturns example_config 0 (agent_answers 1) 200 False ?g))) = 2"
    "prev_of (the (agentReturns example_config 0 (agent_answers 1) 200 False ?g)) 1 = Some 0"
    by code_simp+
  with w(1) have "1 < length (promises g')" "prev_of g' 1 = Some 0" by simp_all
  with w(4) have n: "runThen example_config 1 101 g' = Some (run_callback example_config 1 101 g')"
    by blast
  have e: "map (\<lambda>t. is_settled (t_state t)) (promises (the (run example_config
      (failing_turn @ [AgentReturns 0 (agent_answers 1) 200 False]) (init Map.empty)))) = [True, False]"
    "delivered (the (run example_config
      (failing_turn @ [AgentReturns 0 (agent_answers 1) 200 False, RunThen 1 101,
                       AgentReturns 1 (agent_answers 2) 201 True]) (init Map.empty)))
     = [(0, Fulfilled None), (1, Fulfilled (Some \<lparr>reply = JStr ''a2'', sessionKey = example_key\<rparr>))]"
    by code_simp+
  from facts(2) e w(1,2) r n show ?thesis by blast
qed

lemma runThen_bounded:
  assumes "runThen cfg i now g = Some g'" and "0 < effective_maxHistory cfg"
  shows "i < length (promises g) \<and> files g' = files g \<and>
         (\<exists>st. promises g' = (promises g)[i := (promises g ! i)\<lparr>t_state := st\<rparr>] \<and>
            (\<forall>s ep. st = InFlight s ep \<longrightarrow> int (length (history s)) \<le> effective_maxHistory cfg))"
proof -
  from assms(1) have i: "i < length (promises g)"
    by (auto simp: runThen_def split: if_splits)
  obtain g1 r where b: "processMessage_begin cfg now (t_event (promises g ! i)) (t_key (promises g ! i)) g = (g1, r)"
    by (cases "processMessage_begin cfg now (t_event (promises g ! i)) (t_key (promises g ! i)) g")
  note f = begin_frame [OF b]
  from assms(1) i consider "g' = settle i (Fulfilled None) g" | "g' = run_callback cfg i now g"
    by (auto simp: runThen_def split: if_splits option.splits settled.splits)
  then show ?thesis
  proof cases
    case 1
    with i show ?thesis by (auto simp: settle_fields)
  next
    case 2
    show ?thesis
    proof (cases r)
      case None
      with 2 b have "g' = settle i (Fulfilled None) g1"
        by (simp add: run_callback_def Let_def)
      with i f show ?thesis by (auto simp: settle_fields)
    next
      case (Some se)
      obtain s ep where se: "se = (s, ep)" by (cases se)
      with Some 2 b have "g' = set_state i (InFlight s ep) g1"
        by (simp add: run_callback_def Let_def)
      moreover from b Some se assms(2) have "int (length (history s)) \<le> effective_maxHistory cfg"
        by (intro begin_bound [of cfg now _ _ g g1 s ep]) simp_all
      ultimately show ?thesis using i f by (auto simp: set_state_fields)
    qed
  qed
qed

lemma agentReturns_bounded:
  assumes "agentReturns cfg i fo now written g = Some g'"
  shows "\<exists>s ep out. i < length (promises g) \<and> state_of g i = InFlight s ep \<and>
           promises g' = (promises g)[i := (promises g ! i)\<lparr>t_state := Settled out\<rparr>] \<and>
           (files g' = files g \<or>
            (\<exists>a. files g' = (files g)(sessionPath (sessionsDir cfg) (key_of g i) \<mapsto> map Some (history s @ [a]))))"
proof -
  from assms have i: "i < length (promises g)"
    by (auto simp: agentReturns_def split: if_splits)
  from assms i obtain s ep where st: "state_of g i = InFlight s ep"
    by (auto simp: agentReturns_def state_of_def split: pstate.splits)
  obtain g1 r where f: "processMessage_finish cfg now written (key_of g i) s fo g = (g1, r)"
    by (cases "processMessage_finish cfg now written (key_of g i) s fo g")
  from assms agentReturns_settles [OF i st f] have "g' = settle i (catch_null (settled_of r)) g1"
    by simp
  with i st finish_frame(1) [OF f] finish_files [OF f] show ?thesis
    by (auto simp: settle_fields)
qed

lemma bounded_step:
  assumes "bounded cfg fs g" and "step cfg a g = Some g'" and "0 < effective_maxHistory cfg"
  shows "bounded cfg fs g'"
proof (cases a)
  case (Submit ev)
  with assms(2) have g': "g' = handleMessage ev g" by simp
  then have "promises g' = promises g @ [\<lparr>t_key = sessionKey_of (channel ev) (chatId ev), t_event = ev,
      t_prev = locks g (sessionKey_of (channel ev) (chatId ev)), t_state = Queued\<rparr>]"
    and fl: "files g' = files g"
    by (simp_all add: handleMessage_def Let_def)
  note a = append_accessors [OF this(1)]
  from assms(1) show ?thesis
    by (auto simp: bounded_def a fl less_Suc_eq)
next
  case (RunThen i now)
  with assms(2) have "runThen cfg i now g = Some g'" by simp
  from runThen_bounded [OF this assms(3)] obtain st where
    i: "i < length (promises g)" and fl: "files g' = files g"
    and pr: "promises g' = (promises g)[i := (promises g ! i)\<lparr>t_state := st\<rparr>]"
    and st: "\<And>s ep. st = InFlight s ep \<Longrightarrow> int (length (history s)) \<le> effective_maxHistory cfg"
    by blast
  note u = update_accessors [OF pr i]
  from assms(1) st show ?thesis
    by (auto simp: bounded_def u fl)
next
  case (AgentReturns i fo now written)
  with assms(2) have "agentReturns cfg i fo now written g = Some g'" by simp
  from agentReturns_bounded [OF this] obtain s ep out where
    i: "i < length (promises g)" and s: "state_of g i = InFlight s ep"
    and pr: "promises g' = (promises g)[i := (promises g ! i)\<lparr>t_state := Settled out\<rparr>]"
    and fl: "files g' = files g \<or>
            (\<exists>a. files g' = (files g)(sessionPath (sessionsDir cfg) (key_of g i) \<mapsto> map Some (history s @ [a])))"
    by blast
  note u = update_accessors [OF pr i]
  from assms(1) i s have len: "int (length (history s)) \<le> effective_maxHistory cfg"
    by (simp add: bounded_def)
  have 1: "\<forall>j<length (promises g'). \<forall>s ep. state_of g' j = InFlight s ep \<longrightarrow>
        int (length (history s)) \<le> effective_maxHistory cfg"
    using assms(1) by (auto simp: bounded_def u)
  have 2: "files g' p = fs p \<or>
        (\<exists>lines. files g' p = Some lines \<and> int (length lines) \<le> effective_maxHistory cfg + 1)" for p
    using fl
  proof
    assume "files g' = files g"
    with assms(1) show ?thesis by (simp add: bounded_def)
  next
    assume "\<exists>a. files g' = (files g)(sessionPath (sessionsDir cfg) (key_of g i) \<mapsto> map Some (history s @ [a]))"
    then obtain a where w: "files g' = (files g)(sessionPath (sessionsDir cfg) (key_of g i) \<mapsto> map Some (history s @ [a]))" ..
    show ?thesis
    proof (cases "p = sessionPath (sessionsDir cfg) (key_of g i)")
      case True
      with w len show ?thesis by simp
    next
      case False
      with w assms(1) show ?thesis by (simp add: bounded_def)
    qed
  qed
  from 1 2 show ?thesis by (simp add: bounded_def)
next
  case (Sweep now maxAge)
  with assms(2) have "g' = cleanExpiredSessions now maxAge g" by simp
  then have "promises g' = promises g" "files g' = files g"
    by (simp_all add: cleanExpiredSessions_def)
  with assms(1) show ?thesis by (simp add: bounded_def state_of_def)
qed

lemma bounded_init: "bounded cfg fs (init fs)"
  by (simp add: bounded_def init_def)

text \<open>
  C3 (as stated it fails): with \<^verbatim>\<open>maxHistory = 3\<close>, after five turn pairs the session file
  holds four turns, the last two questions with their answers.
\<close>

theorem five_pairs_persist_four_turns:
  "maxHistory example_config = Some 3 \<and>
   files (the (run example_config five_pairs (init Map.empty))) example_path =
     Some (map Some [question 4, answer_turn 4, question 5, answer_turn 5]) \<and>
   \<not> length (the (files (the (run example_config five_pairs (init Map.empty))) example_path)) \<le> 3"
  by code_simp

text \<open>
  C3 (amended): for a positive \<^verbatim>\<open>maxHistory\<close>, in every state the gateway reaches a session
  file is as it was at the start or holds at most \<^verbatim>\<open>maxHistory + 1\<close> turns: the history is
  cut to \<^verbatim>\<open>maxHistory\<close> after the user turn is pushed, and the assistant turn is pushed
  after the cut.
\<close>

theorem persisted_history_bound:
  assumes "run cfg acts (init fs) = Some g" and "0 < effective_maxHistory cfg"
  shows "files g p = fs p \<or>
         (\<exists>lines. files g p = Some lines \<and> int (length lines) \<le> effective_maxHistory cfg + 1)"
proof -
  have "bounded cfg fs g"
    using assms(1) bounded_init
  proof (rule run_invariant)
    fix a h h' assume "bounded cfg fs h" "step cfg a h = Some h'"
    then show "bounded cfg fs h'" using assms(2) by (rule bounded_step)
  qed
  then show ?thesis by (simp add: bounded_def)
qed

theorem persisted_history_bound_witness:
  "0 < effective_maxHistory example_config \<and>
   files (the (run example_config five_pairs (init Map.empty))) example_path \<noteq> Map.empty example_path \<and>
   (\<exists>lines. files (the (run example_config five_pairs (init Map.empty))) example_path = Some lines \<and>
      int (length lines) \<le> effective_maxHistory example_config + 1 \<and> length lines = 4)"
proof -
  let ?g = "the (run example_config five_pairs (init Map.empty))"
  have g: "run example_config five_pairs (init Map.empty) = Some ?g"
    by (rule run_started) code_simp
  have m: "0 < effective_maxHistory example_config"
    by code_simp
  have f: "files ?g example_path = Some (map Some [question 4, answer_turn 4, question 5, answer_turn 5])"
    by code_simp
  from persisted_history_bound [OF g m, of example_path] f m show ?thesis
    by auto
qed

section \<open>Properties of a failed dispatch\<close>

lemma run_callback_sessions:
  assumes "i < length (promises g)" and "loadSession cfg now (key_of g i) g = (s0, g1)"
  shows "files (run_callback cfg i now g) = files g"
    and "sessions (run_callback cfg i now g) (key_of g i) =
           Some (s0\<lparr>history := pushed cfg (user_turn (t_event (promises g ! i)) now) (history s0)\<rparr>)"
    and "state_of (run_callback cfg i now g) i = InFlight s ep \<Longrightarrow>
           s = s0\<lparr>history := pushed cfg (user_turn (t_event (promises g ! i)) now) (history s0)\<rparr>"
proof -
  let ?ev = "t_event (promises g ! i)"
  let ?s = "s0\<lparr>history := pushed cfg (user_turn ?ev now) (history s0)\<rparr>"
  let ?g2 = "g1\<lparr>sessions := (sessions g1)(key_of g i \<mapsto> ?s)\<rparr>"
  note l = assms(2)
  note f = loadSession_frame [OF l]
  have rc: "run_callback cfg i now g =
      (if resolve_endpoint cfg (channel ?ev) = [] then settle i (Fulfilled None) ?g2
       else set_state i (InFlight ?s (resolve_endpoint cfg (channel ?ev))) ?g2)"
    using begin_eq [OF l, of ?ev] by (simp add: run_callback_def Let_def key_of_def)
  show "files (run_callback cfg i now g) = files g"
    by (simp add: rc settle_fields set_state_fields f)
  show "sessions (run_callback cfg i now g) (key_of g i) = Some ?s"
    by (simp add: rc settle_fields set_state_fields)
  have len: "i < length (promises ?g2)"
    using assms(1) f by simp
  show "s = ?s" if "state_of (run_callback cfg i now g) i = InFlight s ep"
    using that len by (simp add: rc state_of_def settle_fields set_state_fields split: if_splits)
qed

text \<open>
  C4 (as stated it fails): the session file holds a question and its answer; the unit of
  work for the next question meets a failed agent call. No reply is delivered, the cached
  session holds the new question, and the file is as it was, without the new question.
\<close>

theorem dispatch_failure_file_lacks_inbound_turn:
  "delivered (the (run example_config failed_dispatch one_pair_on_disk)) = [(0, Fulfilled None)] \<and>
   map_option history (sessions (the (run example_config failed_dispatch one_pair_on_disk)) example_key)
     = Some [question 1, answer_turn 1, question 2] \<and>
   files (the (run example_config failed_dispatch one_pair_on_disk)) example_path
     = Some (map Some [question 1, answer_turn 1]) \<and>
   Some (question 2) \<notin> set (the (files (the (run example_config failed_dispatch one_pair_on_disk)) example_path))"
  by code_simp

text \<open>
  C4 (amended): in every state the gateway reaches, whatever else runs while a unit of work
  waits for the agent: when the unit starts, the session files stay as they are and the
  session in the cache, which is the one the unit holds, becomes the loaded session with the
  user turn pushed and the history cut to \<^verbatim>\<open>maxHistory\<close> (for a positive \<^verbatim>\<open>maxHistory\<close>
  its last turn is the user turn); and when the agent call of a unit in flight fails (the
  request fails or times out, the status is not a success, the body does not parse, or it
  has no reply), the unit returns no reply and leaves the session files and the cache
  exactly as they stand, with no assistant turn pushed and nothing written.
\<close>

theorem dispatch_failure_keeps_files:
  assumes "run cfg acts (init fs) = Some g" and "i < length (promises g)"
    and "fo = FetchFailed \<or> (\<exists>body. fo = Response False body) \<or> fo = Response True None \<or>
         (\<exists>data. fo = Response True (Some data) \<and> reply_of data = None)"
  shows "(\<forall>now g'. runThen cfg i now g = Some g' \<longrightarrow>
            (let s0 = fst (loadSession cfg now (key_of g i) g);
                 hist = pushed cfg (user_turn (t_event (promises g ! i)) now) (history s0)
             in files g' = files g \<and> sessions g' (key_of g i) = Some (s0\<lparr>history := hist\<rparr>) \<and>
                (\<forall>s ep. state_of g' i = InFlight s ep \<longrightarrow> s = s0\<lparr>history := hist\<rparr>) \<and>
                (0 < effective_maxHistory cfg \<longrightarrow>
                   hist \<noteq> [] \<and> last hist = user_turn (t_event (promises g ! i)) now))) \<and>
         (\<forall>s ep now written. state_of g i = InFlight s ep \<longrightarrow>
            (\<exists>g'. agentReturns cfg i fo now written g = Some g' \<and>
                  files g' = files g \<and> sessions g' = sessions g \<and>
                  state_of g' i = Settled (Fulfilled None) \<and>
                  delivered g' = delivered g @ [(i, Fulfilled None)]))"
proof (intro conjI allI impI)
  fix now g' assume r: "runThen cfg i now g = Some g'"
  have "fulfilled_ok g"
    using sched_ok_run [OF assms(1)] by (simp add: sched_ok_def)
  from runThen_callback [OF this r] have g': "g' = run_callback cfg i now g" .
  obtain s0 g1 where l: "loadSession cfg now (key_of g i) g = (s0, g1)"
    by (cases "loadSession cfg now (key_of g i) g")
  note rc = run_callback_sessions [OF assms(2) l]
  have "0 < effective_maxHistory cfg \<longrightarrow>
      pushed cfg (user_turn (t_event (promises g ! i)) now) (history s0) \<noteq> [] \<and>
      last (pushed cfg (user_turn (t_event (promises g ! i)) now) (history s0)) =
        user_turn (t_event (promises g ! i)) now"
    using pushed_last [of cfg] by simp
  with rc show "let s0 = fst (loadSession cfg now (key_of g i) g);
                 hist = pushed cfg (user_turn (t_event (promises g ! i)) now) (history s0)
             in files g' = files g \<and> sessions g' (key_of g i) = Some (s0\<lparr>history := hist\<rparr>) \<and>
                (\<forall>s ep. state_of g' i = InFlight s ep \<longrightarrow> s = s0\<lparr>history := hist\<rparr>) \<and>
                (0 < effective_maxHistory cfg \<longrightarrow>
                   hist \<noteq> [] \<and> last hist = user_turn (t_event (promises g ! i)) now)"
    by (auto simp: Let_def l g')
next
  fix s ep now written assume st: "state_of g i = InFlight s ep"
  have fail: "callAgent (history s) fo = None \<or>
      (\<exists>r. callAgent (history s) fo = Some r \<and> agent_reply r = None)"
    using assms(3) callAgent_failures(4) [of _ "history s"]
    by (elim disjE exE) (simp_all add: callAgent_failures(1-3))
  have "processMessage_finish cfg now written (key_of g i) s fo g = (g, Inr None)"
    by (rule finish_no_reply [OF fail])
  from agentReturns_settles [OF assms(2) st this]
  have a: "agentReturns cfg i fo now written g = Some (settle i (Fulfilled None) g)"
    by simp
  show "\<exists>g'. agentReturns cfg i fo now written g = Some g' \<and>
          files g' = files g \<and> sessions g' = sessions g \<and>
          state_of g' i = Settled (Fulfilled None) \<and>
          delivered g' = delivered g @ [(i, Fulfilled None)]"
    using a assms(2) by (simp add: settle_fields state_of_def)
qed

theorem dispatch_failure_keeps_files_witness:
  "map_option history (sessions (the (run example_config second_question_in_flight one_pair_on_disk)) example_key)
     = Some [question 1, answer_turn 1, question 2] \<and>
   (\<exists>g'. agentReturns example_config 0 (Response False None) 151 True
            (the (run example_config second_question_in_flight one_pair_on_disk)) = Some g' \<and>
          files g' = files (the (run example_config second_question_in_flight one_pair_on_disk)) \<and>
          sessions g' = sessions (the (run example_config second_question_in_flight one_pair_on_disk)) \<and>
          state_of g' 0 = Settled (Fulfilled None)) \<and>
   sessions (the (run example_config swept_in_flight one_pair_on_disk)) example_key = None \<and>
   (\<exists>g'. agentReturns example_config 0 FetchFailed 151 True
            (the (run example_config swept_in_flight one_pair_on_disk)) = Some g' \<and>
          files g' = files (the (run example_config swept_in_flight one_pair_on_disk)) \<and>
          sessions g' = sessions (the (run example_config swept_in_flight one_pair_on_disk)) \<and>
          state_of g' 0 = Settled (Fulfilled None))"
proof -
  let ?g = "the (run example_config second_question_in_flight one_pair_on_disk)"
  let ?h = "the (run example_config swept_in_flight one_pair_on_disk)"
  have g: "run example_config second_question_in_flight (init [example_path \<mapsto> map Some [question 1, answer_turn 1]]) = Some ?g"
    unfolding one_pair_on_disk_def by (rule run_started) code_simp
  have h: "run example_config swept_in_flight (init [example_path \<mapsto> map Some [question 1, answer_turn 1]]) = Some ?h"
    unfolding one_pair_on_disk_def by (rule run_started) code_simp
  have facts: "0 < length (promises ?g)" "in_flight (state_of ?g 0)"
    "0 < length (promises ?h)" "in_flight (state_of ?h 0)"
    "map_option history (sessions ?g example_key) = Some [question 1, answer_turn 1, question 2]"
    "sessions ?h example_key = None"
    by code_simp+
  from facts(2) obtain s ep where s: "state_of ?g 0 = InFlight s ep"
    by (auto simp: in_flight_def split: pstate.splits)
  from facts(4) obtain s' ep' where s': "state_of ?h 0 = InFlight s' ep'"
    by (auto simp: in_flight_def split: pstate.splits)
  have f1: "Response False None = FetchFailed \<or> (\<exists>body. Response False None = Response False body) \<or>
      Response False None = Response True None \<or>
      (\<exists>data. Response False None = Response True (Some data) \<and> reply_of data = None)"
    by simp
  have f2: "FetchFailed = FetchFailed \<or> (\<exists>body. FetchFailed = Response False body) \<or>
      FetchFailed = Response True None \<or>
      (\<exists>data. FetchFailed = Response True (Some data) \<and> reply_of data = None)"
    by simp
  from dispatch_failure_keeps_files [OF g facts(1) f1]
  have "\<forall>s ep now written. state_of ?g 0 = InFlight s ep \<longrightarrow>
            (\<exists>g'. agentReturns example_config 0 (Response False None) now written ?g = Some g' \<and>
                  files g' = files ?g \<and> sessions g' = sessions ?g \<and>
                  state_of g' 0 = Settled (Fulfilled None) \<and>
                  delivered g' = delivered ?g @ [(0, Fulfilled None)])"
    by (rule conjunct2)
  from this [rule_format, OF s, of 151 True]
  have 1: "\<exists>g'. agentReturns example_config 0 (Response False None) 151 True ?g = Some g' \<and>
          files g' = files ?g \<and> sessions g' = sessions ?g \<and> state_of g' 0 = Settled (Fulfilled None)"
    by (elim exE conjE, intro exI conjI)
  from dispatch_failure_keeps_files [OF h facts(3) f2]
  have "\<forall>s ep now written. state_of ?h 0 = InFlight s ep \<longrightarrow>
            (\<exists>g'. agentReturns example_config 0 FetchFailed now written ?h = Some g' \<and>
                  files g' = files ?h \<and> sessions g' = sessions ?h \<and>
                  state_of g' 0 = Settled (Fulfilled None) \<and>
                  delivered g' = delivered ?h @ [(0, Fulfilled None)])"
    by (rule conjunct2)
  from this [rule_format, OF s', of 151 True]
  have 2: "\<exists>g'. agentReturns example_config 0 FetchFailed 151 True ?h = Some g' \<and>
          files g' = files ?h \<and> sessions g' = sessions ?h \<and> state_of g' 0 = Settled (Fulfilled None)"
    by (elim exE conjE, intro exI conjI)
  from facts(5) 1 facts(6) 2 show ?thesis
    by (intro conjI)
qed

end
